theory Spec2Isabelle
  imports Main "HOL-Library.Word" "HOL-Library.Multiset"
begin

section \<open>The locked queue (SafeQueue)\<close>

text \<open>
  \<^verbatim>\<open>SafeQueue<T>\<close> keeps its elements in a \<^verbatim>\<open>std::deque<T> data_\<close>; every member
  function runs under \<^verbatim>\<open>mutex_\<close>, so each call is one atomic transformation of the
  element sequence. An output parameter \<^verbatim>\<open>T& value\<close> is passed in and handed back.
\<close>

record 'a SafeQueue =
  sq_data :: "'a list"

definition SafeQueue_new :: "'a SafeQueue" where
  "SafeQueue_new = \<lparr>sq_data = []\<rparr>"

definition SafeQueue_push :: "'a \<Rightarrow> 'a SafeQueue \<Rightarrow> 'a SafeQueue" where
  "SafeQueue_push v q = q\<lparr>sq_data := sq_data q @ [v]\<rparr>"

definition SafeQueue_pop :: "'a SafeQueue \<Rightarrow> 'a \<Rightarrow> bool \<times> 'a SafeQueue \<times> 'a" where
  "SafeQueue_pop q val =
     (case sq_data q of
        [] \<Rightarrow> (False, q, val)
      | x # xs \<Rightarrow> (True, q\<lparr>sq_data := xs\<rparr>, x))"

text \<open>
  \<^verbatim>\<open>block_pop\<close> waits on the condition variable while the deque is empty. Each return
  of \<^verbatim>\<open>cv_.wait\<close> (a notification or a spurious wake-up) re-acquires the mutex and
  sees the deque as the other threads left it: the second argument lists these
  successive contents. \<open>None\<close> means the call is still blocked after the last of them.
\<close>

fun SafeQueue_block_pop ::
  "'a SafeQueue \<Rightarrow> 'a list list \<Rightarrow> 'a \<Rightarrow> (bool \<times> 'a SafeQueue \<times> 'a) option" where
  "SafeQueue_block_pop q wakes val =
     (case sq_data q of
        [] \<Rightarrow> (case wakes of
                 [] \<Rightarrow> None
               | d # ws \<Rightarrow> SafeQueue_block_pop (q\<lparr>sq_data := d\<rparr>) ws val)
      | x # xs \<Rightarrow> Some (True, q\<lparr>sq_data := xs\<rparr>, x))"

definition SafeQueue_size :: "'a SafeQueue \<Rightarrow> nat" where
  "SafeQueue_size q = length (sq_data q)"

definition SafeQueue_empty :: "'a SafeQueue \<Rightarrow> bool" where
  "SafeQueue_empty q = (sq_data q = [])"

definition SafeQueue_clear :: "'a SafeQueue \<Rightarrow> 'a SafeQueue" where
  "SafeQueue_clear q = q\<lparr>sq_data := []\<rparr>"

definition SafeQueue_push_bulk :: "'a list \<Rightarrow> 'a SafeQueue \<Rightarrow> 'a SafeQueue" where
  "SafeQueue_push_bulk vs q = q\<lparr>sq_data := sq_data q @ vs\<rparr>"

section \<open>The lock-free queue (LockFreeQueue)\<close>

text \<open>
  \<^verbatim>\<open>LockFreeQueue<T>\<close> is a singly linked list of heap nodes. The free store is a map from
  addresses to nodes (\<open>None\<close>: not allocated, also after \<^verbatim>\<open>delete\<close>); a pointer is an
  \<open>addr option\<close> (\<open>None\<close>: \<^verbatim>\<open>nullptr\<close>). A node's \<^verbatim>\<open>std::unique_ptr<T> data\<close> is
  \<open>Null\<close>, or owns a value that is \<open>Live\<close> or has been moved from (\<open>Moved\<close>: the
  pointer stays set, the value it holds is unspecified).
\<close>

type_synonym addr = nat

datatype 'a payload = Null | Live 'a | Moved

record 'a Node =
  data :: "'a payload"
  "next" :: "addr option"

type_synonym 'a store = "addr \<Rightarrow> 'a Node option"

record 'a LockFreeQueue =
  store :: "'a store"
  head :: "addr option"
  tail :: "addr option"

text \<open>
  What C++ leaves undefined is a value of the model: dereferencing \<^verbatim>\<open>nullptr\<close>,
  dereferencing a pointer to a node that is not allocated, reading a moved-from value.
\<close>

datatype fault = NullDeref | UseAfterFree | UnspecifiedRead

definition deref :: "'a store \<Rightarrow> addr option \<Rightarrow> fault + 'a Node" where
  "deref s p =
     (case p of
        None \<Rightarrow> Inl NullDeref
      | Some a \<Rightarrow> (case s a of None \<Rightarrow> Inl UseAfterFree | Some n \<Rightarrow> Inr n))"

text \<open>
  \<^verbatim>\<open>compare_exchange_weak\<close> may fail although the atomic holds the expected value (a
  spurious failure); the run of a single thread is otherwise deterministic. Which
  compare-exchanges fail spuriously is a parameter of every operation: a list of booleans,
  one consumed per compare-exchange (\<open>True\<close>: this one fails spuriously); past its end
  none does. The operation hands back what it has not consumed. The result of a
  compare-exchange is (success, the atomic's new value, the new value of \<^verbatim>\<open>expected\<close>).
  Memory orders have no meaning for a single thread and are left out.
\<close>

definition spurious :: "bool list \<Rightarrow> bool" where
  "spurious orc = (case orc of [] \<Rightarrow> False | b # _ \<Rightarrow> b)"

definition rest :: "bool list \<Rightarrow> bool list" where
  "rest orc = drop 1 orc"

definition compare_exchange_weak :: "bool \<Rightarrow> 'p \<Rightarrow> 'p \<Rightarrow> 'p \<Rightarrow> bool \<times> 'p \<times> 'p" where
  "compare_exchange_weak spur cur expected desired =
     (if cur = expected \<and> \<not> spur then (True, desired, expected) else (False, cur, cur))"

text \<open>
  The constructor; \<open>a\<close> is the address \<^verbatim>\<open>new Node<T>()\<close> returns, \<open>s\<close> the store before.
\<close>

definition LockFreeQueue_new :: "'a store \<Rightarrow> addr \<Rightarrow> 'a LockFreeQueue" where
  "LockFreeQueue_new s a =
     \<lparr>store = s(a \<mapsto> \<lparr>data = Null, next = None\<rparr>), head = Some a, tail = Some a\<rparr>"

text \<open>
  \<^verbatim>\<open>enqueue\<close>: \<open>new_node\<close> is the address \<^verbatim>\<open>new Node<T>(std::move(value))\<close> returns
  (allocation is taken to succeed). The \<^verbatim>\<open>while (true)\<close> loop carries \<^verbatim>\<open>old_tail\<close>;
  \<^verbatim>\<open>next\<close> is reloaded at the top of every round. The loop need not end on an arbitrary
  store, so not returning is the value \<open>None\<close>.
\<close>

partial_function (option) enqueue_loop ::
  "addr \<Rightarrow> bool list \<Rightarrow> 'a LockFreeQueue \<Rightarrow> addr option
     \<Rightarrow> (fault + bool list \<times> 'a LockFreeQueue) option" where
  "enqueue_loop new_node orc q old_tail =
     (case old_tail of
        None \<Rightarrow> Some (Inl NullDeref)
      | Some t \<Rightarrow>
         (case store q t of
            None \<Rightarrow> Some (Inl UseAfterFree)
          | Some tn \<Rightarrow>
             (case next tn of
                Some nx \<Rightarrow>
                  (case compare_exchange_weak (spurious orc) (tail q) old_tail (Some nx) of
                     (ok, tail', old_tail') \<Rightarrow>
                       enqueue_loop new_node (rest orc) (q\<lparr>tail := tail'\<rparr>) old_tail')
              | None \<Rightarrow>
                  (case compare_exchange_weak (spurious orc) (next tn) None (Some new_node) of
                     (swapped, next', nx') \<Rightarrow>
                       if swapped then
                         (let q1 = q\<lparr>store := (store q)(t \<mapsto> tn\<lparr>next := next'\<rparr>)\<rparr> in
                          case compare_exchange_weak (spurious (rest orc)) (tail q1) old_tail
                                 (Some new_node) of
                            (ok, tail', old_tail') \<Rightarrow>
                              Some (Inr (rest (rest orc), q1\<lparr>tail := tail'\<rparr>)))
                       else enqueue_loop new_node (rest orc) q old_tail))))"

declare enqueue_loop.simps [code]

definition enqueue ::
  "addr \<Rightarrow> 'a \<Rightarrow> bool list \<Rightarrow> 'a LockFreeQueue \<Rightarrow> (fault + bool list \<times> 'a LockFreeQueue) option" where
  "enqueue a v orc q =
     (let q1 = q\<lparr>store := (store q)(a \<mapsto> \<lparr>data = Live v, next = None\<rparr>)\<rparr>
      in enqueue_loop a orc q1 (tail q1))"

text \<open>
  \<^verbatim>\<open>dequeue\<close>: the result is (the flags not consumed, the queue, the returned
  \<^verbatim>\<open>bool\<close>, the output parameter \<^verbatim>\<open>value\<close>). A failed compare-exchange reloads
  \<^verbatim>\<open>old_head\<close> and goes round again; on success the payload is moved out of the new
  head node and the old head node is deleted.
\<close>

function dequeue_loop ::
  "bool list \<Rightarrow> 'a LockFreeQueue \<Rightarrow> addr option \<Rightarrow> 'a
     \<Rightarrow> fault + bool list \<times> 'a LockFreeQueue \<times> bool \<times> 'a" where
  "dequeue_loop orc q old_head val =
     (case old_head of
        None \<Rightarrow> Inr (orc, q, False, val)
      | Some h \<Rightarrow>
         (case store q h of
            None \<Rightarrow> Inl UseAfterFree
          | Some hn \<Rightarrow>
             (case next hn of
                None \<Rightarrow> Inr (orc, q, False, val)
              | Some n \<Rightarrow>
                 (if \<not> fst (compare_exchange_weak (spurious orc) (head q) old_head (Some n))
                  then dequeue_loop (rest orc) q
                         (snd (snd (compare_exchange_weak (spurious orc) (head q) old_head (Some n)))) val
                  else
                    (case store q n of
                       None \<Rightarrow> Inl UseAfterFree
                     | Some nn \<Rightarrow>
                        (case data nn of
                           Null \<Rightarrow> Inl NullDeref
                         | Moved \<Rightarrow> Inl UnspecifiedRead
                         | Live v \<Rightarrow>
                            Inr (rest orc,
                                 q\<lparr>store := (store q)(n \<mapsto> nn\<lparr>data := Moved\<rparr>, h := None),
                                   head := Some n\<rparr>,
                                 True, v)))))))"
  by pat_completeness auto
termination
  apply (relation "measure (\<lambda>(orc, q, old_head, val).
           2 * length orc + (if head q = old_head then 0 else 1))")
   apply (auto simp: compare_exchange_weak_def spurious_def rest_def split: list.splits if_splits)
  done

declare dequeue_loop.simps [simp del]

definition dequeue ::
  "bool list \<Rightarrow> 'a LockFreeQueue \<Rightarrow> 'a \<Rightarrow> fault + bool list \<times> 'a LockFreeQueue \<times> bool \<times> 'a" where
  "dequeue orc q val = dequeue_loop orc q (head q) val"


definition LockFreeQueue_empty :: "'a LockFreeQueue \<Rightarrow> fault + bool" where
  "LockFreeQueue_empty q =
     (case deref (store q) (head q) of
        Inl f \<Rightarrow> Inl f
      | Inr hn \<Rightarrow> Inr (next hn = None))"

text \<open>\<^verbatim>\<open>clear\<close>: \<^verbatim>\<open>T dummy; while (dequeue(dummy)) {}\<close>.\<close>

partial_function (option) clear_loop ::
  "bool list \<Rightarrow> 'a LockFreeQueue \<Rightarrow> 'a \<Rightarrow> (fault + bool list \<times> 'a LockFreeQueue) option" where
  "clear_loop orc q dummy =
     (case dequeue orc q dummy of
        Inl f \<Rightarrow> Some (Inl f)
      | Inr (orc', q', ok, dummy') \<Rightarrow>
          if ok then clear_loop orc' q' dummy' else Some (Inr (orc', q')))"

declare clear_loop.simps [code]

definition LockFreeQueue_clear ::
  "bool list \<Rightarrow> 'a LockFreeQueue \<Rightarrow> 'a \<Rightarrow> (fault + bool list \<times> 'a LockFreeQueue) option" where
  "LockFreeQueue_clear orc q dummy = clear_loop orc q dummy"

text \<open>
  The move constructor and move assignment: the result is (\<^verbatim>\<open>*this\<close>, \<^verbatim>\<open>other\<close>) after the
  call. Both queue objects live in one store, the one \<^verbatim>\<open>*this\<close> carries. The assignment
  is given the addresses of the two queue objects for its guard \<^verbatim>\<open>if (this != &other)\<close>:
  when they are equal the two are one object and nothing is done.
\<close>

definition LockFreeQueue_move :: "'a LockFreeQueue \<Rightarrow> 'a LockFreeQueue \<times> 'a LockFreeQueue" where
  "LockFreeQueue_move other =
     (\<lparr>store = store other, head = head other, tail = tail other\<rparr>,
      other\<lparr>head := None, tail := None\<rparr>)"

definition LockFreeQueue_move_assign ::
  "bool list \<Rightarrow> 'a \<Rightarrow> addr \<Rightarrow> 'a LockFreeQueue \<Rightarrow> addr \<Rightarrow> 'a LockFreeQueue
     \<Rightarrow> (fault + bool list \<times> 'a LockFreeQueue \<times> 'a LockFreeQueue) option" where
  "LockFreeQueue_move_assign orc dummy this_at this other_at other =
     (if this_at \<noteq> other_at then
        (case LockFreeQueue_clear orc this dummy of
           None \<Rightarrow> None
         | Some (Inl f) \<Rightarrow> Some (Inl f)
         | Some (Inr (orc', this')) \<Rightarrow>
             Some (Inr (orc',
                        this'\<lparr>head := head other, tail := tail other\<rparr>,
                        other\<lparr>store := store this', head := None, tail := None\<rparr>)))
      else Some (Inr (orc, this, other)))"

subsection \<open>The list a queue state represents\<close>

text \<open>
  \<open>linked s as\<close>: the nodes at \<open>as\<close> are allocated, each points to the next, the last
  to \<^verbatim>\<open>nullptr\<close>. \<open>lfq_repr q s cs vs\<close>: the head is the sentinel \<open>s\<close>, whose payload is
  not live, followed by the nodes \<open>cs\<close> holding the live payloads \<open>vs\<close>, oldest first.
  Nothing is said about \<^verbatim>\<open>tail_\<close>.
\<close>

fun linked :: "'a store \<Rightarrow> addr list \<Rightarrow> bool" where
  "linked s [] = True"
| "linked s [a] = (case s a of None \<Rightarrow> False | Some n \<Rightarrow> next n = None)"
| "linked s (a # b # cs) =
     ((case s a of None \<Rightarrow> False | Some n \<Rightarrow> next n = Some b) \<and> linked s (b # cs))"

definition payload_of :: "'a store \<Rightarrow> addr \<Rightarrow> 'a payload" where
  "payload_of s a = (case s a of None \<Rightarrow> Null | Some n \<Rightarrow> data n)"

definition is_live :: "'a payload \<Rightarrow> bool" where
  "is_live p = (case p of Live v \<Rightarrow> True | _ \<Rightarrow> False)"

definition lfq_repr :: "'a LockFreeQueue \<Rightarrow> addr \<Rightarrow> addr list \<Rightarrow> 'a list \<Rightarrow> bool" where
  "lfq_repr q s cs vs \<longleftrightarrow>
     head q = Some s \<and> linked (store q) (s # cs) \<and> distinct (s # cs) \<and>
     \<not> is_live (payload_of (store q) s) \<and>
     map (payload_of (store q)) cs = map Live vs"


subsection \<open>A producer and a consumer\<close>

text \<open>
  A producer enqueues (pushes) the values of a list one after the other; a consumer makes
  \<open>n\<close> calls of \<^verbatim>\<open>dequeue\<close> (\<^verbatim>\<open>pop\<close>) with one output variable and records what each
  call returned and left in the variable. \<open>received val vs\<close> is the record of a consumer
  that is handed \<open>vs\<close> in order and then told the queue is empty.
\<close>

fun enqueue_all ::
  "(addr \<times> 'a) list \<Rightarrow> bool list \<Rightarrow> 'a LockFreeQueue
     \<Rightarrow> (fault + bool list \<times> 'a LockFreeQueue) option" where
  "enqueue_all [] orc q = Some (Inr (orc, q))"
| "enqueue_all ((a, v) # avs) orc q =
     (case enqueue a v orc q of
        None \<Rightarrow> None
      | Some (Inl f) \<Rightarrow> Some (Inl f)
      | Some (Inr (orc', q')) \<Rightarrow> enqueue_all avs orc' q')"

fun dequeue_n ::
  "nat \<Rightarrow> bool list \<Rightarrow> 'a LockFreeQueue \<Rightarrow> 'a
     \<Rightarrow> fault + (bool \<times> 'a) list \<times> bool list \<times> 'a LockFreeQueue" where
  "dequeue_n 0 orc q val = Inr ([], orc, q)"
| "dequeue_n (Suc n) orc q val =
     (case dequeue orc q val of
        Inl f \<Rightarrow> Inl f
      | Inr (orc', q', ok, val') \<Rightarrow>
          (case dequeue_n n orc' q' val' of
             Inl f \<Rightarrow> Inl f
           | Inr (rs, orc'', q'') \<Rightarrow> Inr ((ok, val') # rs, orc'', q'')))"

fun push_all :: "'a list \<Rightarrow> 'a SafeQueue \<Rightarrow> 'a SafeQueue" where
  "push_all [] q = q"
| "push_all (v # vs) q = push_all vs (SafeQueue_push v q)"

fun pop_n :: "nat \<Rightarrow> 'a SafeQueue \<Rightarrow> 'a \<Rightarrow> (bool \<times> 'a) list \<times> 'a SafeQueue" where
  "pop_n 0 q val = ([], q)"
| "pop_n (Suc n) q val =
     (case SafeQueue_pop q val of
        (ok, q', val') \<Rightarrow> (case pop_n n q' val' of (rs, q'') \<Rightarrow> ((ok, val') # rs, q'')))"

definition received :: "'a \<Rightarrow> 'a list \<Rightarrow> (bool \<times> 'a) list" where
  "received val vs = map (\<lambda>v. (True, v)) vs @ [(False, last (val # vs))]"

text \<open>
  A single thread that calls \<^verbatim>\<open>enqueue\<close> and \<^verbatim>\<open>dequeue\<close> in any order, with what its
  calls of \<^verbatim>\<open>dequeue\<close> returned; and the same calls on a plain list (\<open>fifo\<close>), which
  gives the returned values and the list left.
\<close>

datatype 'a call = Enqueue addr 'a | Dequeue

fun calls ::
  "'a call list \<Rightarrow> bool list \<Rightarrow> 'a LockFreeQueue \<Rightarrow> 'a
     \<Rightarrow> (fault + (bool \<times> 'a) list \<times> bool list \<times> 'a LockFreeQueue) option" where
  "calls [] orc q val = Some (Inr ([], orc, q))"
| "calls (Enqueue a v # cs) orc q val =
     (case enqueue a v orc q of
        None \<Rightarrow> None
      | Some (Inl f) \<Rightarrow> Some (Inl f)
      | Some (Inr (orc', q')) \<Rightarrow> calls cs orc' q' val)"
| "calls (Dequeue # cs) orc q val =
     (case dequeue orc q val of
        Inl f \<Rightarrow> Some (Inl f)
      | Inr (orc', q', ok, val') \<Rightarrow>
          (case calls cs orc' q' val' of
             None \<Rightarrow> None
           | Some (Inl f) \<Rightarrow> Some (Inl f)
           | Some (Inr (rs, orc'', q'')) \<Rightarrow> Some (Inr ((ok, val') # rs, orc'', q''))))"

fun fifo :: "'a call list \<Rightarrow> 'a list \<Rightarrow> 'a \<Rightarrow> (bool \<times> 'a) list \<times> 'a list" where
  "fifo [] vs val = ([], vs)"
| "fifo (Enqueue a v # cs) vs val = fifo cs (vs @ [v]) val"
| "fifo (Dequeue # cs) [] val = (case fifo cs [] val of (rs, vs') \<Rightarrow> ((False, val) # rs, vs'))"
| "fifo (Dequeue # cs) (v # vs) val = (case fifo cs vs v of (rs, vs') \<Rightarrow> ((True, v) # rs, vs'))"

fun enqueue_addrs :: "'a call list \<Rightarrow> addr list" where
  "enqueue_addrs [] = []"
| "enqueue_addrs (Enqueue a v # cs) = a # enqueue_addrs cs"
| "enqueue_addrs (Dequeue # cs) = enqueue_addrs cs"

section \<open>The thread pool (ThreadPool)\<close>

text \<open>
  A submitted callable with its bound arguments is what it does when invoked: it returns
  a value or throws. \<^verbatim>\<open>std::packaged_task\<close> and \<^verbatim>\<open>std::future\<close> share a state: not yet
  ready, a value, an exception, or a broken promise (the task was destroyed before it
  ran). Invoking the packaged task stores the callable's result or exception there and
  lets nothing escape, so the catch clauses of the wrapper and of the worker are never
  entered by an exception of the callable; invoking it once more throws
  \<^verbatim>\<open>std::future_error\<close>, which the wrapper catches, and leaves the state as it is.
  \<^verbatim>\<open>future::get\<close> blocks while the state is pending (\<open>None\<close>), returns the value or
  rethrows. The shared states are kept in a list, in the order of submission; a task
  names its own by index.
\<close>

datatype ('e, 'r) outcome = Returns 'r | Throws 'e

datatype ('e, 'r) shared_state = Pending | Ready 'r | Failed 'e | Broken

datatype 'e future_error = Rethrown 'e | broken_promise

record ('e, 'r) Task =
  future_id :: nat
  callable :: "('e, 'r) outcome"

definition future_get :: "('e, 'r) shared_state \<Rightarrow> ('e future_error + 'r) option" where
  "future_get st =
     (case st of
        Pending \<Rightarrow> None
      | Ready r \<Rightarrow> Some (Inr r)
      | Failed e \<Rightarrow> Some (Inl (Rethrown e))
      | Broken \<Rightarrow> Some (Inl broken_promise))"

definition invoke :: "('e, 'r) Task \<Rightarrow> ('e, 'r) shared_state list \<Rightarrow> ('e, 'r) shared_state list" where
  "invoke t fs =
     (if future_id t < length fs \<and> fs ! future_id t = Pending
      then fs[future_id t := (case callable t of Returns r \<Rightarrow> Ready r | Throws e \<Rightarrow> Failed e)]
      else fs)"

definition abandon :: "('e, 'r) Task option \<Rightarrow> ('e, 'r) shared_state list \<Rightarrow> ('e, 'r) shared_state list" where
  "abandon f fs =
     (case f of
        None \<Rightarrow> fs
      | Some t \<Rightarrow>
          if future_id t < length fs \<and> fs ! future_id t = Pending
          then fs[future_id t := Broken] else fs)"

text \<open>
  The repository has two \<^verbatim>\<open>ThreadPool\<close> classes, one over \<^verbatim>\<open>SafeQueue\<close> (\<open>Locked\<close>)
  and one over \<^verbatim>\<open>LockFreeQueue\<close> (\<open>LockFree\<close>); they differ in the places marked
  below. A queue element is a \<^verbatim>\<open>std::function<void()>\<close>: empty (\<open>None\<close>) or the wrapper
  that \<^verbatim>\<open>submit\<close> builds around a task. In both variants the task queue is represented
  by its contents in FIFO order, one queue operation being one step.

  A worker thread is at one of the places of \<^verbatim>\<open>worker_thread\<close>: the loop test, the
  \<^verbatim>\<open>pop\<close>, the invocation of a popped task, the task's completion hook
  (\<^verbatim>\<open>fetch_sub\<close>), the test after the loop, the same three places of the draining loop,
  or it has returned. The thread that won the exchange in \<^verbatim>\<open>stop\<close> is in
  \<^verbatim>\<open>clear_queue\<close>, in \<^verbatim>\<open>wait_all\<close>, joining the workers, or done.

  \<^verbatim>\<open>task_count_\<close> is a \<^verbatim>\<open>std::atomic<size_t>\<close>, 64 bits wide on the Linux target of the
  repository: \<^verbatim>\<open>fetch_sub\<close> at zero wraps. The member \<^verbatim>\<open>wait_for_completion_\<close> exists
  in the \<open>Locked\<close> variant only. The notifications of \<^verbatim>\<open>wait_cv_\<close> change no state;
  a thread in \<^verbatim>\<open>wait_all\<close> goes on when the counter reads zero.
\<close>

datatype pool_error = runtime_error string | invalid_argument string

datatype variant = Locked | LockFree

datatype ('e, 'r) worker =
    AtLoop
  | AtPop
  | AtRun "('e, 'r) Task option"
  | AtHook "('e, 'r) Task"
  | AtStopped
  | AtDrainPop
  | AtDrainRun "('e, 'r) Task option"
  | AtDrainHook "('e, 'r) Task"
  | Exited

datatype stop_phase = NotStopping | Clearing | WaitingAll | Joining | Stopped

record ('e, 'r) ThreadPool =
  variant :: variant
  wait_for_completion :: bool
  is_running :: bool
  task_count :: "64 word"
  threads :: "('e, 'r) worker list"
  task_queue :: "('e, 'r) Task option SafeQueue"
  futures :: "('e, 'r) shared_state list"
  stopper :: stop_phase

text \<open>What a step does, as seen from outside.\<close>

datatype obs = Submitted nat | Rejected pool_error | Invoked nat | Completed nat | Discarded | Tau

definition ThreadPool_new :: "variant \<Rightarrow> nat \<Rightarrow> ('e, 'r) ThreadPool" where
  "ThreadPool_new k thread_count =
     \<lparr>variant = k, wait_for_completion = True, is_running = True, task_count = 0,
      threads = replicate thread_count AtLoop, task_queue = SafeQueue_new, futures = [],
      stopper = NotStopping\<rparr>"

definition create :: "variant \<Rightarrow> nat \<Rightarrow> pool_error + ('e, 'r) ThreadPool" where
  "create k thread_count =
     (if thread_count = 0 then Inl (invalid_argument ''Thread count must be greater than 0'')
      else Inr (ThreadPool_new k thread_count))"

definition pending_tasks :: "('e, 'r) ThreadPool \<Rightarrow> 64 word" where
  "pending_tasks p = task_count p"

definition thread_count :: "('e, 'r) ThreadPool \<Rightarrow> nat" where
  "thread_count p = length (threads p)"

text \<open>
  \<^verbatim>\<open>submit\<close>, taken as one step: the result is what the caller gets (the exception
  thrown, or the index of the future returned) and the pool after the call.
\<close>

definition submit ::
  "('e, 'r) outcome \<Rightarrow> ('e, 'r) ThreadPool \<Rightarrow> (pool_error + nat) \<times> ('e, 'r) ThreadPool" where
  "submit f p =
     (if \<not> is_running p then
        (Inl (runtime_error (case variant p of
                               Locked \<Rightarrow> ''ThreadPool is stopped''
                             | LockFree \<Rightarrow> ''ThreadPool is not running'')), p)
      else
        (let result = length (futures p);
             task = \<lparr>future_id = result, callable = f\<rparr>
         in (Inr result,
             p\<lparr>futures := futures p @ [Pending],
               task_count := task_count p + 1,
               task_queue := SafeQueue_push (Some task) (task_queue p)\<rparr>)))"

text \<open>
  \<^verbatim>\<open>stop\<close> up to its first branch: the exchange on \<^verbatim>\<open>is_running_\<close>, and where the
  caller goes next. Only the \<open>Locked\<close> variant clears the queue. The parameter
  \<^verbatim>\<open>wait_for_completion\<close> is not stored in the member of that name.
\<close>

definition stop :: "bool \<Rightarrow> ('e, 'r) ThreadPool \<Rightarrow> ('e, 'r) ThreadPool" where
  "stop wait p =
     (if \<not> is_running p then p
      else p\<lparr>is_running := False,
             stopper := (if wait then WaitingAll
                         else case variant p of Locked \<Rightarrow> Clearing | LockFree \<Rightarrow> Joining)\<rparr>)"

text \<open>
  One round of the loop of \<^verbatim>\<open>clear_queue\<close> (a pop and, when it succeeds, the decrement;
  the discarded wrapper is destroyed, which breaks its promise: the round does it at
  once, the code when \<^verbatim>\<open>dummy\<close> is next assigned or goes out of scope), then the rest of
  \<^verbatim>\<open>stop\<close>: \<^verbatim>\<open>wait_all\<close> returns once the counter reads zero, the joins return once
  every worker has returned. \<open>None\<close>: the thread is blocked.
\<close>

definition clear_queue_step :: "('e, 'r) ThreadPool \<Rightarrow> obs \<times> ('e, 'r) ThreadPool" where
  "clear_queue_step p =
     (case SafeQueue_pop (task_queue p) None of
        (ok, q', dummy) \<Rightarrow>
          if ok then (Discarded,
                      p\<lparr>task_queue := q', task_count := task_count p - 1,
                        futures := abandon dummy (futures p)\<rparr>)
          else (Tau, p\<lparr>stopper := Joining\<rparr>))"

definition stop_step :: "('e, 'r) ThreadPool \<Rightarrow> (obs \<times> ('e, 'r) ThreadPool) option" where
  "stop_step p =
     (case stopper p of
        Clearing \<Rightarrow> Some (clear_queue_step p)
      | WaitingAll \<Rightarrow> if task_count p = 0 then Some (Tau, p\<lparr>stopper := Joining\<rparr>) else None
      | Joining \<Rightarrow>
          if list_all (\<lambda>w. w = Exited) (threads p)
          then Some (Tau, p\<lparr>threads := [], stopper := Stopped\<rparr>) else None
      | _ \<Rightarrow> None)"

definition wait_all :: "('e, 'r) ThreadPool \<Rightarrow> ('e, 'r) ThreadPool option" where
  "wait_all p = (if task_count p = 0 then Some p else None)"

text \<open>
  One step of a worker. Invoking the wrapper runs the packaged task and then the
  completion hook; an empty \<^verbatim>\<open>std::function\<close> is skipped (\<open>Locked\<close>) or throws
  \<^verbatim>\<open>bad_function_call\<close>, which the worker catches (\<open>LockFree\<close>). The result is the
  observation, the worker's next place and the pool.
\<close>

definition run_task ::
  "('e, 'r) worker \<Rightarrow> (('e, 'r) Task \<Rightarrow> ('e, 'r) worker) \<Rightarrow> ('e, 'r) Task option
     \<Rightarrow> ('e, 'r) ThreadPool \<Rightarrow> obs \<times> ('e, 'r) worker \<times> ('e, 'r) ThreadPool" where
  "run_task back hook f p =
     (case f of
        None \<Rightarrow> (Tau, back, p)
      | Some t \<Rightarrow> (Invoked (future_id t), hook t, p\<lparr>futures := invoke t (futures p)\<rparr>))"

definition run_hook ::
  "('e, 'r) worker \<Rightarrow> ('e, 'r) Task \<Rightarrow> ('e, 'r) ThreadPool
     \<Rightarrow> obs \<times> ('e, 'r) worker \<times> ('e, 'r) ThreadPool" where
  "run_hook back t p = (Completed (future_id t), back, p\<lparr>task_count := task_count p - 1\<rparr>)"

fun worker_thread ::
  "('e, 'r) worker \<Rightarrow> ('e, 'r) ThreadPool
     \<Rightarrow> (obs \<times> ('e, 'r) worker \<times> ('e, 'r) ThreadPool) option" where
  "worker_thread AtLoop p = Some (Tau, if is_running p then AtPop else AtStopped, p)"
| "worker_thread AtPop p =
     (case SafeQueue_pop (task_queue p) None of
        (ok, q', task) \<Rightarrow>
          Some (if ok then (Tau, AtRun task, p\<lparr>task_queue := q'\<rparr>) else (Tau, AtLoop, p)))"
| "worker_thread (AtRun task) p = Some (run_task AtLoop AtHook task p)"
| "worker_thread (AtHook t) p = Some (run_hook AtLoop t p)"
| "worker_thread AtStopped p =
     Some (Tau,
           (case variant p of
              Locked \<Rightarrow> if wait_for_completion p then AtDrainPop else Exited
            | LockFree \<Rightarrow> if \<not> is_running p then AtDrainPop else Exited),
           p)"
| "worker_thread AtDrainPop p =
     (case SafeQueue_pop (task_queue p) None of
        (ok, q', remaining_task) \<Rightarrow>
          Some (if ok then (Tau, AtDrainRun remaining_task, p\<lparr>task_queue := q'\<rparr>)
                else (Tau, Exited, p)))"
| "worker_thread (AtDrainRun remaining_task) p =
     Some (run_task AtDrainPop AtDrainHook remaining_task p)"
| "worker_thread (AtDrainHook t) p = Some (run_hook AtDrainPop t p)"
| "worker_thread Exited p = None"

text \<open>
  The pool runs by interleaving: an event names the thread that takes the next step. A
  schedule is a list of events; \<open>run\<close> gives the observations and the final pool, or
  \<open>None\<close> when a scheduled thread cannot take its step.
\<close>

datatype ('e, 'r) event = Submit "('e, 'r) outcome" | Stop bool | StopStep | WaitAll | Worker nat

fun step :: "('e, 'r) event \<Rightarrow> ('e, 'r) ThreadPool \<Rightarrow> (obs \<times> ('e, 'r) ThreadPool) option" where
  "step (Submit f) p =
     (case submit f p of
        (Inl e, p') \<Rightarrow> Some (Rejected e, p')
      | (Inr k, p') \<Rightarrow> Some (Submitted k, p'))"
| "step (Stop wait) p = Some (Tau, stop wait p)"
| "step StopStep p = stop_step p"
| "step WaitAll p = (case wait_all p of None \<Rightarrow> None | Some p' \<Rightarrow> Some (Tau, p'))"
| "step (Worker i) p =
     (if i < length (threads p) then
        (case worker_thread (threads p ! i) p of
           None \<Rightarrow> None
         | Some (ob, w', p') \<Rightarrow> Some (ob, p'\<lparr>threads := (threads p')[i := w']\<rparr>))
      else None)"

fun run ::
  "('e, 'r) event list \<Rightarrow> ('e, 'r) ThreadPool \<Rightarrow> (obs list \<times> ('e, 'r) ThreadPool) option" where
  "run [] p = Some ([], p)"
| "run (ev # evs) p =
     (case step ev p of
        None \<Rightarrow> None
      | Some (ob, p') \<Rightarrow>
          (case run evs p' of None \<Rightarrow> None | Some (obs, p'') \<Rightarrow> Some (ob # obs, p'')))"

section \<open>Auxiliary notions for the proofs\<close>

subsection \<open>Lock-free queue: the states reached by the operations\<close>

text \<open>
  \<open>dequeued q s c\<close> is \<open>q\<close> after a successful \<^verbatim>\<open>dequeue\<close> that moved the head from \<open>s\<close>
  to \<open>c\<close>; \<open>link_last s l a\<close> is the store \<open>s\<close> with the node at \<open>l\<close> pointing to \<open>a\<close>.
  \<open>enq_post\<close> is what the loop of \<^verbatim>\<open>enqueue\<close> returns on a chain whose last node is
  \<open>l\<close>: the new node linked behind \<open>l\<close>, and \<^verbatim>\<open>tail_\<close> at \<open>l\<close> or at the new node (at
  the new node when no compare-exchange fails spuriously). \<open>tail_within\<close>: \<^verbatim>\<open>tail_\<close>
  points to some node of the chain. \<open>sentinel_inv q vs\<close>: the chain of \<open>q\<close> holds \<open>vs\<close>
  and \<^verbatim>\<open>tail_\<close> points to its last node.
\<close>

definition dequeued :: "'a LockFreeQueue \<Rightarrow> addr \<Rightarrow> addr \<Rightarrow> 'a LockFreeQueue" where
  "dequeued q s c =
     q\<lparr>store := (store q)(c := map_option (\<lambda>n. n\<lparr>data := Moved\<rparr>) (store q c), s := None),
       head := Some c\<rparr>"

definition link_last :: "'a store \<Rightarrow> addr \<Rightarrow> addr \<Rightarrow> 'a store" where
  "link_last s l a = s(l := map_option (\<lambda>n. n\<lparr>next := Some a\<rparr>) (s l))"

definition enq_post ::
  "'a LockFreeQueue \<Rightarrow> addr \<Rightarrow> addr \<Rightarrow> bool list
     \<Rightarrow> (fault + bool list \<times> 'a LockFreeQueue) option \<Rightarrow> bool" where
  "enq_post q l a orc r \<longleftrightarrow>
     (\<exists>orc' tl'. r = Some (Inr (orc', q\<lparr>store := link_last (store q) l a, tail := tl'\<rparr>))
        \<and> (tl' = Some l \<or> tl' = Some a)
        \<and> set orc' \<subseteq> set orc \<and> (True \<notin> set orc \<longrightarrow> tl' = Some a))"

definition tail_within :: "'a LockFreeQueue \<Rightarrow> addr \<Rightarrow> addr list \<Rightarrow> bool" where
  "tail_within q s cs \<longleftrightarrow> (\<exists>t \<in> set (s # cs). tail q = Some t)"

definition sentinel_inv :: "'a LockFreeQueue \<Rightarrow> 'a list \<Rightarrow> bool" where
  "sentinel_inv q vs \<longleftrightarrow> (\<exists>s cs. lfq_repr q s cs vs \<and> tail q = Some (last (s # cs)))"

subsection \<open>Thread pool: accounting of tasks\<close>

text \<open>
  \<open>outstanding p\<close> counts the tasks that are queued or held by a worker (popped, with the
  completion hook still to run). \<open>unstarted p\<close> lists the futures of the tasks that are
  queued or popped but not yet invoked. \<open>pool_inv\<close> is the invariant of the pool: the
  counter is the number of outstanding tasks, no queued or popped function is empty, the
  unstarted tasks have futures of their own, all pending. \<open>effect ob p p'\<close> says what one
  step with observation \<open>ob\<close> may do: it keeps the books (\<open>inc\<close>, \<open>dec\<close>) and either
  moves tasks around, starts one, or adds a new one. \<open>submitted\<close>, \<open>completed\<close> and
  \<open>discarded\<close> count observations in a run.
\<close>

fun in_flight :: "('e, 'r) worker \<Rightarrow> nat" where
  "in_flight (AtRun f) = 1"
| "in_flight (AtHook t) = 1"
| "in_flight (AtDrainRun f) = 1"
| "in_flight (AtDrainHook t) = 1"
| "in_flight w = 0"

definition outstanding :: "('e, 'r) ThreadPool \<Rightarrow> nat" where
  "outstanding p = length (sq_data (task_queue p)) + sum_list (map in_flight (threads p))"

fun held :: "('e, 'r) worker \<Rightarrow> nat list" where
  "held (AtRun (Some t)) = [future_id t]"
| "held (AtDrainRun (Some t)) = [future_id t]"
| "held w = []"

definition queued_ids :: "('e, 'r) ThreadPool \<Rightarrow> nat list" where
  "queued_ids p = concat (map (\<lambda>f. case f of None \<Rightarrow> [] | Some t \<Rightarrow> [future_id t]) (sq_data (task_queue p)))"

definition unstarted :: "('e, 'r) ThreadPool \<Rightarrow> nat list" where
  "unstarted p = queued_ids p @ concat (map held (threads p))"

definition ids_ok :: "('e, 'r) ThreadPool \<Rightarrow> bool" where
  "ids_ok p \<longleftrightarrow>
     distinct (unstarted p) \<and>
     (\<forall>k \<in> set (unstarted p). k < length (futures p) \<and> futures p ! k = Pending)"

definition none_free :: "('e, 'r) ThreadPool \<Rightarrow> bool" where
  "none_free p \<longleftrightarrow>
     None \<notin> set (sq_data (task_queue p)) \<and>
     AtRun None \<notin> set (threads p) \<and> AtDrainRun None \<notin> set (threads p)"

definition pool_inv :: "('e, 'r) ThreadPool \<Rightarrow> bool" where
  "pool_inv p \<longleftrightarrow> task_count p = of_nat (outstanding p) \<and> none_free p \<and> ids_ok p"

fun inc :: "obs \<Rightarrow> nat" where
  "inc (Submitted k) = 1"
| "inc ob = 0"

fun dec :: "obs \<Rightarrow> nat" where
  "dec (Completed k) = 1"
| "dec Discarded = 1"
| "dec ob = 0"

definition moved :: "('e, 'r) ThreadPool \<Rightarrow> ('e, 'r) ThreadPool \<Rightarrow> bool" where
  "moved p p' \<longleftrightarrow> mset (unstarted p') = mset (unstarted p) \<and> futures p' = futures p"

definition started :: "nat \<Rightarrow> ('e, 'r) ThreadPool \<Rightarrow> ('e, 'r) ThreadPool \<Rightarrow> bool" where
  "started k p p' \<longleftrightarrow>
     mset (unstarted p) = add_mset k (mset (unstarted p')) \<and>
     length (futures p') = length (futures p) \<and>
     (\<forall>j. j \<noteq> k \<longrightarrow> futures p' ! j = futures p ! j)"

definition added :: "('e, 'r) ThreadPool \<Rightarrow> ('e, 'r) ThreadPool \<Rightarrow> bool" where
  "added p p' \<longleftrightarrow>
     mset (unstarted p') = add_mset (length (futures p)) (mset (unstarted p)) \<and>
     futures p' = futures p @ [Pending]"

definition effect :: "obs \<Rightarrow> ('e, 'r) ThreadPool \<Rightarrow> ('e, 'r) ThreadPool \<Rightarrow> bool" where
  "effect ob p p' \<longleftrightarrow>
     none_free p' \<and>
     outstanding p' + dec ob = outstanding p + inc ob \<and>
     task_count p' = task_count p + of_nat (inc ob) - of_nat (dec ob) \<and>
     (moved p p' \<or> (\<exists>k. started k p p') \<or> added p p')"

fun submitted :: "obs list \<Rightarrow> nat" where
  "submitted [] = 0"
| "submitted (Submitted k # obs) = Suc (submitted obs)"
| "submitted (ob # obs) = submitted obs"

fun completed :: "obs list \<Rightarrow> nat" where
  "completed [] = 0"
| "completed (Completed k # obs) = Suc (completed obs)"
| "completed (ob # obs) = completed obs"

fun discarded :: "obs list \<Rightarrow> nat" where
  "discarded [] = 0"
| "discarded (Discarded # obs) = Suc (discarded obs)"
| "discarded (ob # obs) = discarded obs"

definition result_of :: "('e, 'r) outcome \<Rightarrow> ('e, 'r) shared_state" where
  "result_of f = (case f of Returns r \<Rightarrow> Ready r | Throws e \<Rightarrow> Failed e)"

section \<open>The lock-free queue: what the operations do\<close>

subsection \<open>Stores and chains\<close>

lemma linked_upd_other: "a \<notin> set cs \<Longrightarrow> linked (s(a := x)) cs = linked s cs"
  by (induction s cs rule: linked.induct) auto

lemma linked_tl: "linked s (a # cs) \<Longrightarrow> linked s cs"
  by (cases cs) auto

lemma linked_data_upd:
  "s a = Some n \<Longrightarrow> linked (s(a \<mapsto> n\<lparr>data := d\<rparr>)) cs = linked s cs"
  by (induction s cs rule: linked.induct) auto

lemma payload_map_upd_other:
  "a \<notin> set cs \<Longrightarrow> map (payload_of (s(a := x))) cs = map (payload_of s) cs"
  by (induction cs) (auto simp: payload_of_def)

subsection \<open>dequeue\<close>

lemma dequeue_empty:
  assumes "lfq_repr q s [] []"
  shows "dequeue orc q val = Inr (orc, q, False, val)"
  using assms unfolding dequeue_def lfq_repr_def
  by (subst dequeue_loop.simps) (auto split: option.splits)

lemma dequeue_loop_nonempty:
  assumes "lfq_repr q s (c # cs) (v # vs)"
  shows "dequeue_loop orc q (Some s) val = Inr (rest (dropWhile (\<lambda>b. b) orc), dequeued q s c, True, v)"
  using assms
proof (induction orc)
  case Nil
  then show ?case unfolding lfq_repr_def dequeued_def
    by (subst dequeue_loop.simps)
       (auto simp: compare_exchange_weak_def spurious_def rest_def payload_of_def split: option.splits payload.splits)
next
  case (Cons b orc)
  show ?case
  proof (cases b)
    case True
    with Cons show ?thesis unfolding lfq_repr_def
      by (subst dequeue_loop.simps)
       (auto simp: compare_exchange_weak_def spurious_def rest_def payload_of_def split: option.splits payload.splits)
  next
    case False
    with Cons.prems show ?thesis unfolding lfq_repr_def dequeued_def
      by (subst dequeue_loop.simps)
       (auto simp: compare_exchange_weak_def spurious_def rest_def payload_of_def split: option.splits payload.splits)
  qed
qed

lemma dequeued_repr:
  assumes "lfq_repr q s (c # cs) (v # vs)"
  shows "lfq_repr (dequeued q s c) c cs vs"
proof -
  from assms obtain sn cn where sn: "store q s = Some sn" "next sn = Some c"
    and cn: "store q c = Some cn" "data cn = Live v"
    and l: "linked (store q) (c # cs)" and d: "distinct (s # c # cs)"
    and m: "map (payload_of (store q)) cs = map Live vs"
    unfolding lfq_repr_def by (cases cs) (auto simp: payload_of_def split: option.splits)
  have 1: "linked ((store q)(c \<mapsto> cn\<lparr>data := Moved\<rparr>, s := None)) (c # cs)"
    using l d cn by (simp add: linked_upd_other linked_data_upd)
  have 2: "map (payload_of ((store q)(c \<mapsto> cn\<lparr>data := Moved\<rparr>, s := None))) cs = map Live vs"
    using m d by (simp add: payload_map_upd_other)
  show ?thesis unfolding lfq_repr_def dequeued_def using 1 2 d cn
    by (simp add: payload_of_def is_live_def)
qed

subsection \<open>enqueue\<close>

lemma linked_mid_next:
  "linked s (xs @ t # y # ys) \<Longrightarrow> \<exists>n. s t = Some n \<and> next n = Some y"
  by (induction s xs rule: linked.induct) (auto split: option.splits)

lemma linked_last_next:
  "linked s (xs @ [t]) \<Longrightarrow> \<exists>n. s t = Some n \<and> next n = None"
  by (induction s xs rule: linked.induct) (auto split: option.splits)

lemma tail_update_same: "tail q = x \<Longrightarrow> q\<lparr>tail := x\<rparr> = q"
  by simp

lemma enqueue_loop_lagging:
  assumes "linked (store q) (xs @ t # y # ys)" "distinct (xs @ t # y # ys)" "tail q = Some y"
  shows "enqueue_loop a orc q (Some t) = enqueue_loop a (rest orc) q (Some y)"
proof -
  from linked_mid_next[OF assms(1)] obtain n where "store q t = Some n" "next n = Some y" by blast
  moreover have "t \<noteq> y" using assms(2) by auto
  ultimately show ?thesis using assms(3)
    by (subst enqueue_loop.simps) (simp add: compare_exchange_weak_def tail_update_same)
qed

lemma enqueue_loop_advance:
  assumes "linked (store q) (xs @ t # y # ys)" "tail q = Some t"
  shows "enqueue_loop a orc q (Some t) =
          (if spurious orc then enqueue_loop a (rest orc) q (Some t)
           else enqueue_loop a (rest orc) (q\<lparr>tail := Some y\<rparr>) (Some t))"
proof -
  from linked_mid_next[OF assms(1)] obtain n where "store q t = Some n" "next n = Some y" by blast
  then show ?thesis using assms(2)
    by (subst enqueue_loop.simps) (simp add: compare_exchange_weak_def tail_update_same)
qed

lemma enqueue_loop_link:
  assumes "linked (store q) (xs @ [t])" "tail q = Some t"
  shows "enqueue_loop a orc q (Some t) =
          (if spurious orc then enqueue_loop a (rest orc) q (Some t)
           else Some (Inr (rest (rest orc),
                  q\<lparr>store := link_last (store q) t a,
                    tail := (if spurious (rest orc) then Some t else Some a)\<rparr>)))"
proof -
  from linked_last_next[OF assms(1)] obtain n where "store q t = Some n" "next n = None" by blast
  then show ?thesis using assms(2)
    by (subst enqueue_loop.simps) (simp add: compare_exchange_weak_def link_last_def tail_update_same)
qed

lemma spurious_simps [simp]:
  "spurious [] = False" "spurious (b # bs) = b" "rest [] = []" "rest (b # bs) = bs"
  by (simp_all add: spurious_def rest_def)

lemma enq_post_rest: "enq_post q l a (rest orc) r \<Longrightarrow> enq_post q l a orc r"
  unfolding enq_post_def by (cases orc) auto

lemma enq_post_tl: "enq_post q l a bs r \<Longrightarrow> enq_post q l a (b # bs) r"
  unfolding enq_post_def by auto

lemma enq_post_tail: "enq_post (q\<lparr>tail := x\<rparr>) l a orc r = enq_post q l a orc r"
  unfolding enq_post_def by simp

lemma enq_post_linked:
  "enq_post q l a (False # orc)
     (Some (Inr (rest orc, q\<lparr>store := link_last (store q) l a,
                    tail := (if spurious orc then Some l else Some a)\<rparr>)))"
  unfolding enq_post_def by (cases orc) auto

lemma enq_post_linked_Nil:
  "enq_post q l a [] (Some (Inr ([], q\<lparr>store := link_last (store q) l a, tail := Some a\<rparr>)))"
  unfolding enq_post_def by auto

lemma enqueue_loop_ok:
  assumes "linked (store q) (xs @ t # ys)" "distinct (xs @ t # ys)" "tail q = Some t"
  shows "enq_post q (last (t # ys)) a orc (enqueue_loop a orc q (Some t))"
  using assms
proof (induction ys arbitrary: xs t q orc)
  case Nil
  then have l: "linked (store q) (xs @ [t])" and t: "tail q = Some t" by simp_all
  show ?case
  proof (induction orc)
    case Nil
    show ?case using enqueue_loop_link[OF l t, of a "[]"] enq_post_linked_Nil[of q t a] by simp
  next
    case (Cons b orc)
    show ?case
    proof (cases b)
      case True
      with Cons show ?thesis using enqueue_loop_link[OF l t, of a "b # orc"]
        by (simp add: enq_post_tl)
    next
      case False
      then show ?thesis using enqueue_loop_link[OF l t, of a "b # orc"] enq_post_linked[of q t a orc]
        by simp
    qed
  qed
next
  case (Cons y ys)
  have step: "enq_post q (last (y # ys)) a orc (enqueue_loop a orc (q\<lparr>tail := Some y\<rparr>) (Some t))"
    for orc
  proof -
    have l: "linked (store (q\<lparr>tail := Some y\<rparr>)) ((xs @ [t]) @ y # ys)"
      and d: "distinct ((xs @ [t]) @ y # ys)" and t: "tail (q\<lparr>tail := Some y\<rparr>) = Some y"
      using Cons.prems by simp_all
    have "enqueue_loop a orc (q\<lparr>tail := Some y\<rparr>) (Some t)
          = enqueue_loop a (rest orc) (q\<lparr>tail := Some y\<rparr>) (Some y)"
      using enqueue_loop_lagging[of "q\<lparr>tail := Some y\<rparr>" xs t y ys a orc] Cons.prems by simp
    moreover from Cons.IH[OF l d t, of "rest orc"]
    have "enq_post q (last (y # ys)) a (rest orc)
            (enqueue_loop a (rest orc) (q\<lparr>tail := Some y\<rparr>) (Some y))"
      by (simp only: enq_post_tail)
    ultimately show ?thesis by (simp only: enq_post_rest)
  qed
  have l: "linked (store q) (xs @ t # y # ys)" and t: "tail q = Some t"
    using Cons.prems by simp_all
  have last: "last (t # y # ys) = last (y # ys)" by simp
  show ?case unfolding last
  proof (induction orc)
    case Nil
    show ?case using step[of "[]"] enqueue_loop_advance[OF l t, of a "[]"] by simp
  next
    case (Cons b orc)
    show ?case
    proof (cases b)
      case True
      with Cons show ?thesis using enqueue_loop_advance[OF l t, of a "b # orc"]
        by (simp add: enq_post_tl)
    next
      case False
      then show ?thesis using step[of orc] enqueue_loop_advance[OF l t, of a "b # orc"]
        by (simp add: enq_post_tl)
    qed
  qed
qed

lemma linked_link_last:
  assumes "linked s (xs @ [l])" "distinct (xs @ [l])" "a \<notin> set (xs @ [l])"
    "s a = Some n" "next n = None"
  shows "linked (link_last s l a) (xs @ [l, a])"
  using assms
proof (induction s xs rule: linked.induct)
  case (1 s)
  then show ?case by (auto simp: link_last_def split: option.splits)
next
  case (2 s b)
  then show ?case by (auto simp: link_last_def split: option.splits)
next
  case (3 s b c cs)
  then show ?case by (auto simp: link_last_def split: option.splits)
qed

lemma payload_link_last [simp]: "payload_of (link_last s l a) = payload_of s"
  by (rule ext) (auto simp: payload_of_def link_last_def split: option.splits)

lemma enqueue_repr:
  assumes r: "lfq_repr q s cs vs" and t: "tail_within q s cs" and a: "a \<notin> set (s # cs)"
  shows "\<exists>orc' q'. enqueue a v orc q = Some (Inr (orc', q'))
           \<and> lfq_repr q' s (cs @ [a]) (vs @ [v]) \<and> tail_within q' s (cs @ [a])
           \<and> set orc' \<subseteq> set orc \<and> (True \<notin> set orc \<longrightarrow> tail q' = Some a)
           \<and> (\<forall>b. b \<noteq> a \<longrightarrow> store q b = None \<longrightarrow> store q' b = None)"
proof -
  define q1 where "q1 = q\<lparr>store := (store q)(a \<mapsto> \<lparr>data = Live v, next = None\<rparr>)\<rparr>"
  from t obtain t0 where t0: "t0 \<in> set (s # cs)" "tail q = Some t0"
    unfolding tail_within_def by blast
  then obtain xs ys where split: "s # cs = xs @ t0 # ys"
    by (meson split_list)
  from r have lk: "linked (store q) (s # cs)" and d: "distinct (s # cs)" and h: "head q = Some s"
    and nl: "\<not> is_live (payload_of (store q) s)"
    and pm: "map (payload_of (store q)) cs = map Live vs"
    unfolding lfq_repr_def by simp_all
  have lk1: "linked (store q1) (s # cs)"
    unfolding q1_def using lk a by (simp add: linked_upd_other del: linked.simps)
  obtain ys' l where bl: "s # cs = ys' @ [l]"
    by (metis append_butlast_last_id list.distinct(1))
  have "enq_post q1 (last (t0 # ys)) a orc (enqueue_loop a orc q1 (Some t0))"
    using enqueue_loop_ok[of q1 xs t0 ys a orc] lk1 d split t0 unfolding q1_def by simp
  moreover have "last (t0 # ys) = l" using split bl by (metis last_appendR last_snoc list.distinct(1))
  ultimately obtain orc' tl' where res:
    "enqueue_loop a orc q1 (Some t0)
        = Some (Inr (orc', q1\<lparr>store := link_last (store q1) l a, tail := tl'\<rparr>))"
    "tl' = Some l \<or> tl' = Some a" "set orc' \<subseteq> set orc"
    "True \<notin> set orc \<longrightarrow> tl' = Some a"
    unfolding enq_post_def by auto
  let ?q' = "q1\<lparr>store := link_last (store q1) l a, tail := tl'\<rparr>"
  have e: "enqueue a v orc q = Some (Inr (orc', ?q'))"
    using res(1) t0(2) unfolding enqueue_def q1_def by (simp add: Let_def)
  have "linked (store q1) (ys' @ [l])" "distinct (ys' @ [l])" "a \<notin> set (ys' @ [l])"
    using lk1 d a unfolding bl by simp_all
  then have "linked (link_last (store q1) l a) (ys' @ [l, a])"
    using linked_link_last[of "store q1" ys' l a "\<lparr>data = Live v, next = None\<rparr>"]
    unfolding q1_def by simp
  moreover have "ys' @ [l, a] = s # cs @ [a]" using bl by simp
  ultimately have lk': "linked (store ?q') (s # cs @ [a])"
    by simp
  have pm': "map (payload_of (store ?q')) (cs @ [a]) = map Live (vs @ [v])"
    using pm a unfolding q1_def by (simp add: payload_map_upd_other) (simp add: payload_of_def)
  have nl': "\<not> is_live (payload_of (store ?q') s)"
    using nl a unfolding q1_def by (simp add: payload_of_def)
  have "lfq_repr ?q' s (cs @ [a]) (vs @ [v])"
    unfolding lfq_repr_def using lk' pm' nl' d a h unfolding q1_def by (simp del: linked.simps)
  moreover have "l \<in> set (s # cs)" using bl by (metis in_set_conv_decomp)
  then have "tail_within ?q' s (cs @ [a])"
    using res(2) unfolding tail_within_def by auto
  moreover have "True \<notin> set orc \<longrightarrow> tail ?q' = Some a" using res(4) by simp
  moreover have "\<forall>b. b \<noteq> a \<longrightarrow> store q b = None \<longrightarrow> store ?q' b = None"
    unfolding q1_def by (simp add: link_last_def)
  ultimately show ?thesis using e res(3) by blast
qed

subsection \<open>Draining, clearing and sequences of calls\<close>

lemma lfq_repr_lengths: "lfq_repr q s cs vs \<Longrightarrow> length cs = length vs"
  unfolding lfq_repr_def by (metis length_map)

lemma dequeue_nonempty:
  assumes "lfq_repr q s (c # cs) (v # vs)"
  shows "dequeue orc q val = Inr (rest (dropWhile (\<lambda>b. b) orc), dequeued q s c, True, v)"
  using dequeue_loop_nonempty[OF assms] assms unfolding dequeue_def lfq_repr_def by simp

lemma dequeue_n_drains:
  assumes "lfq_repr q s cs vs"
  shows "\<exists>orc' q'. dequeue_n (Suc (length vs)) orc q val = Inr (received val vs, orc', q')
           \<and> lfq_repr q' (last (s # cs)) [] [] \<and> tail q' = tail q"
  using assms
proof (induction vs arbitrary: q s cs orc val)
  case Nil
  then have "cs = []" using lfq_repr_lengths by fastforce
  with Nil show ?case by (simp add: dequeue_empty received_def)
next
  case (Cons v vs)
  then obtain c cs' where cs: "cs = c # cs'"
    using lfq_repr_lengths[OF Cons.prems] by (cases cs) auto
  have r': "lfq_repr (dequeued q s c) c cs' vs"
    using dequeued_repr[of q s c cs' v vs] Cons.prems cs by simp
  from Cons.IH[OF r', of "rest (dropWhile (\<lambda>b. b) orc)" v]
  obtain orc' q' where
    "dequeue_n (Suc (length vs)) (rest (dropWhile (\<lambda>b. b) orc)) (dequeued q s c) v
       = Inr (received v vs, orc', q')"
    "lfq_repr q' (last (c # cs')) [] []" "tail q' = tail (dequeued q s c)"
    by blast
  moreover have "dequeue orc q val = Inr (rest (dropWhile (\<lambda>b. b) orc), dequeued q s c, True, v)"
    using dequeue_nonempty[of q s c cs' v vs] Cons.prems cs by simp
  moreover have "received val (v # vs) = (True, v) # received v vs"
    by (simp add: received_def)
  moreover have "tail (dequeued q s c) = tail q" by (simp add: dequeued_def)
  ultimately show ?case using cs by simp
qed

lemma clear_loop_drains:
  assumes "lfq_repr q s cs vs"
  shows "\<exists>orc' q'. clear_loop orc q dummy = Some (Inr (orc', q'))
           \<and> lfq_repr q' (last (s # cs)) [] [] \<and> tail q' = tail q"
  using assms
proof (induction vs arbitrary: q s cs orc dummy)
  case Nil
  then have "cs = []" using lfq_repr_lengths by fastforce
  with Nil show ?case by (subst clear_loop.simps) (simp add: dequeue_empty)
next
  case (Cons v vs)
  then obtain c cs' where cs: "cs = c # cs'"
    using lfq_repr_lengths[OF Cons.prems] by (cases cs) auto
  have r': "lfq_repr (dequeued q s c) c cs' vs"
    using dequeued_repr[of q s c cs' v vs] Cons.prems cs by simp
  from Cons.IH[OF r', of "rest (dropWhile (\<lambda>b. b) orc)" v]
  obtain orc' q' where
    "clear_loop (rest (dropWhile (\<lambda>b. b) orc)) (dequeued q s c) v = Some (Inr (orc', q'))"
    "lfq_repr q' (last (c # cs')) [] []" "tail q' = tail (dequeued q s c)"
    by blast
  moreover have "dequeue orc q dummy = Inr (rest (dropWhile (\<lambda>b. b) orc), dequeued q s c, True, v)"
    using dequeue_nonempty[of q s c cs' v vs] Cons.prems cs by simp
  moreover have "tail (dequeued q s c) = tail q" by (simp add: dequeued_def)
  ultimately show ?case using cs by (subst clear_loop.simps) simp
qed

lemma enqueue_all_repr:
  assumes "lfq_repr q s cs vs" "tail_within q s cs" "distinct (map fst avs)"
    "set (map fst avs) \<inter> set (s # cs) = {}"
  shows "\<exists>orc' q'. enqueue_all avs orc q = Some (Inr (orc', q'))
           \<and> lfq_repr q' s (cs @ map fst avs) (vs @ map snd avs)
           \<and> tail_within q' s (cs @ map fst avs)
           \<and> set orc' \<subseteq> set orc
           \<and> (True \<notin> set orc \<longrightarrow> tail q' = (if avs = [] then tail q else Some (fst (last avs))))"
  using assms
proof (induction avs arbitrary: q cs vs orc)
  case Nil
  then show ?case by simp
next
  case (Cons av avs)
  obtain a v where av: "av = (a, v)" by (cases av)
  have a: "a \<notin> set (s # cs)" using Cons.prems(4) av by auto
  from enqueue_repr[OF Cons.prems(1,2) a, of v orc]
  obtain orc1 q1 where 1: "enqueue a v orc q = Some (Inr (orc1, q1))"
    "lfq_repr q1 s (cs @ [a]) (vs @ [v])" "tail_within q1 s (cs @ [a])"
    "set orc1 \<subseteq> set orc" "True \<notin> set orc \<longrightarrow> tail q1 = Some a"
    by blast
  have d: "distinct (map fst avs)" using Cons.prems(3) by simp
  have i: "set (map fst avs) \<inter> set (s # cs @ [a]) = {}"
    using Cons.prems(3,4) av by auto
  from Cons.IH[OF 1(2,3) d i, of orc1]
  obtain orc' q' where 2: "enqueue_all avs orc1 q1 = Some (Inr (orc', q'))"
    "lfq_repr q' s ((cs @ [a]) @ map fst avs) ((vs @ [v]) @ map snd avs)"
    "tail_within q' s ((cs @ [a]) @ map fst avs)" "set orc' \<subseteq> set orc1"
    "True \<notin> set orc1 \<longrightarrow> tail q' = (if avs = [] then tail q1 else Some (fst (last avs)))"
    by blast
  have "enqueue_all (av # avs) orc q = Some (Inr (orc', q'))"
    using 1(1) 2(1) av by simp
  moreover have "True \<notin> set orc \<longrightarrow>
      tail q' = (if av # avs = [] then tail q else Some (fst (last (av # avs))))"
    using 1(4,5) 2(5) av by auto
  ultimately show ?case using 2(2,3,4) 1(4) av by auto
qed

lemma LockFreeQueue_new_repr:
  "lfq_repr (LockFreeQueue_new st a0) a0 [] []"
  "tail (LockFreeQueue_new st a0) = Some a0"
  by (simp_all add: lfq_repr_def LockFreeQueue_new_def payload_of_def is_live_def)

lemma push_all_data: "sq_data (push_all vs q) = sq_data q @ vs"
  by (induction vs arbitrary: q) (simp_all add: SafeQueue_push_def)

lemma pop_n_drains:
  "sq_data q = vs \<Longrightarrow> pop_n (Suc (length vs)) q val = (received val vs, q\<lparr>sq_data := []\<rparr>)"
proof (induction vs arbitrary: q val)
  case Nil
  then show ?case by (simp add: SafeQueue_pop_def received_def)
next
  case (Cons v vs)
  have "SafeQueue_pop q val = (True, q\<lparr>sq_data := vs\<rparr>, v)"
    using Cons.prems by (simp add: SafeQueue_pop_def)
  moreover have "pop_n (Suc (length vs)) (q\<lparr>sq_data := vs\<rparr>) v = (received v vs, q\<lparr>sq_data := []\<rparr>)"
    using Cons.IH[of "q\<lparr>sq_data := vs\<rparr>" v] by simp
  moreover have "received val (v # vs) = (True, v) # received v vs"
    by (simp add: received_def)
  ultimately show ?case by simp
qed

subsection \<open>With no spurious failure the tail never lags\<close>

text \<open>
  \<open>sentinel_inv q vs\<close>: the sentinel-headed list of \<open>q\<close> holds \<open>vs\<close> and \<^verbatim>\<open>tail_\<close>
  points to its last node. A fresh queue has it; \<^verbatim>\<open>dequeue\<close> and \<^verbatim>\<open>clear\<close> keep it
  whatever compare-exchange fails spuriously; \<^verbatim>\<open>enqueue\<close> keeps it when none does.
\<close>

lemma lfq_repr_allocated: "lfq_repr q s cs vs \<Longrightarrow> a \<in> set (s # cs) \<Longrightarrow> store q a \<noteq> None"
proof -
  have "linked st xs \<Longrightarrow> a \<in> set xs \<Longrightarrow> st a \<noteq> None" for st :: "'a store" and xs
    by (induction st xs rule: linked.induct) (auto split: option.splits)
  then show "lfq_repr q s cs vs \<Longrightarrow> a \<in> set (s # cs) \<Longrightarrow> store q a \<noteq> None"
    unfolding lfq_repr_def by blast
qed

lemma sentinel_inv_new: "sentinel_inv (LockFreeQueue_new st a) []"
  unfolding sentinel_inv_def using LockFreeQueue_new_repr[of st a] by auto

lemma sentinel_inv_enqueue:
  assumes "sentinel_inv q vs" "store q a = None" "True \<notin> set orc"
  shows "\<exists>orc' q'. enqueue a v orc q = Some (Inr (orc', q'))
           \<and> sentinel_inv q' (vs @ [v]) \<and> True \<notin> set orc'
           \<and> (\<forall>b. b \<noteq> a \<longrightarrow> store q b = None \<longrightarrow> store q' b = None)"
proof -
  from assms(1) obtain s cs where r: "lfq_repr q s cs vs" and t: "tail q = Some (last (s # cs))"
    unfolding sentinel_inv_def by blast
  have a: "a \<notin> set (s # cs)" using lfq_repr_allocated[OF r] assms(2) by blast
  have tw: "tail_within q s cs" unfolding tail_within_def using t
    by (metis last_in_set list.distinct(1))
  from enqueue_repr[OF r tw a, of v orc]
  obtain orc' q' where e: "enqueue a v orc q = Some (Inr (orc', q'))"
    "lfq_repr q' s (cs @ [a]) (vs @ [v])" "set orc' \<subseteq> set orc" "tail q' = Some a"
    "\<forall>b. b \<noteq> a \<longrightarrow> store q b = None \<longrightarrow> store q' b = None"
    using assms(3) by blast
  have "last (s # cs @ [a]) = a" by simp
  then have "sentinel_inv q' (vs @ [v])" using e(2,4) unfolding sentinel_inv_def by metis
  moreover have "True \<notin> set orc'" using e(3) assms(3) by blast
  ultimately show ?thesis using e(1,5) by blast
qed

lemma sentinel_inv_dequeue:
  assumes "sentinel_inv q vs"
  shows "\<exists>orc' q'. dequeue orc q val
                    = Inr (orc', q', vs \<noteq> [], (case vs of [] \<Rightarrow> val | v # _ \<Rightarrow> v))
           \<and> sentinel_inv q' (tl vs) \<and> set orc' \<subseteq> set orc
           \<and> (\<forall>b. store q b = None \<longrightarrow> store q' b = None)"
proof -
  from assms obtain s cs where r: "lfq_repr q s cs vs" and t: "tail q = Some (last (s # cs))"
    unfolding sentinel_inv_def by blast
  show ?thesis
  proof (cases cs)
    case Nil
    then have "vs = []" using lfq_repr_lengths[OF r] by simp
    then show ?thesis using dequeue_empty[of q s orc val] r Nil assms by simp
  next
    case (Cons c cs')
    then obtain v vs' where vs: "vs = v # vs'" using lfq_repr_lengths[OF r] by (cases vs) auto
    have "lfq_repr (dequeued q s c) c cs' vs'" using dequeued_repr[of q s c cs' v vs'] r Cons vs by simp
    moreover have "tail (dequeued q s c) = Some (last (c # cs'))" using t Cons by (simp add: dequeued_def)
    ultimately have "sentinel_inv (dequeued q s c) (tl vs)" unfolding sentinel_inv_def vs by auto
    moreover have "set (rest (dropWhile (\<lambda>b. b) orc)) \<subseteq> set orc"
      unfolding rest_def by (meson set_drop_subset set_dropWhileD subsetI subset_trans in_mono)
    moreover have "\<forall>b. store q b = None \<longrightarrow> store (dequeued q s c) b = None"
      by (simp add: dequeued_def)
    ultimately show ?thesis
      using dequeue_nonempty[of q s c cs' v vs' orc val] r Cons vs by simp
  qed
qed

lemma sentinel_inv_clear:
  assumes "sentinel_inv q vs"
  shows "\<exists>orc' q'. LockFreeQueue_clear orc q dummy = Some (Inr (orc', q')) \<and> sentinel_inv q' []"
proof -
  from assms obtain s cs where r: "lfq_repr q s cs vs" and t: "tail q = Some (last (s # cs))"
    unfolding sentinel_inv_def by blast
  from clear_loop_drains[OF r, of orc dummy]
  obtain orc' q' where "clear_loop orc q dummy = Some (Inr (orc', q'))"
    "lfq_repr q' (last (s # cs)) [] []" "tail q' = tail q" by blast
  moreover have "last [last (s # cs)] = last (s # cs)" by simp
  ultimately have "lfq_repr q' (last (s # cs)) [] [] \<and> tail q' = Some (last (last (s # cs) # []))"
    using t by simp
  then have "sentinel_inv q' []" unfolding sentinel_inv_def by blast
  then show ?thesis using \<open>clear_loop orc q dummy = Some (Inr (orc', q'))\<close>
    unfolding LockFreeQueue_clear_def by blast
qed

text \<open>
  So a single thread whose compare-exchanges do not fail spuriously sees a FIFO queue,
  however its calls of \<^verbatim>\<open>enqueue\<close> and \<^verbatim>\<open>dequeue\<close> alternate.
\<close>

lemma calls_refine_fifo:
  assumes "sentinel_inv q vs" "True \<notin> set orc" "distinct (enqueue_addrs cs)"
    "\<forall>a \<in> set (enqueue_addrs cs). store q a = None"
  shows "\<exists>orc' q'. calls cs orc q val = Some (Inr (fst (fifo cs vs val), orc', q'))
           \<and> sentinel_inv q' (snd (fifo cs vs val))"
  using assms
proof (induction cs vs val arbitrary: q orc rule: fifo.induct)
  case (1 vs val)
  then show ?case by simp
next
  case (2 a v cs vs val)
  have a: "store q a = None" using "2.prems"(4) by simp
  from sentinel_inv_enqueue[OF "2.prems"(1) a "2.prems"(2), of v]
  obtain orc1 q1 where e: "enqueue a v orc q = Some (Inr (orc1, q1))"
    "sentinel_inv q1 (vs @ [v])" "True \<notin> set orc1"
    "\<forall>b. b \<noteq> a \<longrightarrow> store q b = None \<longrightarrow> store q1 b = None"
    by blast
  have d: "distinct (enqueue_addrs cs)" and f: "\<forall>b \<in> set (enqueue_addrs cs). store q1 b = None"
    using "2.prems"(3,4) e(4) by auto
  from "2.IH"[OF e(2,3) d f] show ?case using e(1) by simp
next
  case (3 cs val)
  from sentinel_inv_dequeue[OF "3.prems"(1), of orc val]
  obtain orc1 q1 where e: "dequeue orc q val = Inr (orc1, q1, False, val)"
    "sentinel_inv q1 []" "set orc1 \<subseteq> set orc"
    "\<forall>b. store q b = None \<longrightarrow> store q1 b = None"
    by auto
  have t: "True \<notin> set orc1" using e(3) "3.prems"(2) by blast
  have d: "distinct (enqueue_addrs cs)" and f: "\<forall>b \<in> set (enqueue_addrs cs). store q1 b = None"
    using "3.prems"(3,4) e(4) by auto
  from "3.IH"[OF e(2) t d f] show ?case using e(1) by (auto split: prod.splits)
next
  case (4 cs v vs val)
  from sentinel_inv_dequeue[OF "4.prems"(1), of orc val]
  obtain orc1 q1 where e: "dequeue orc q val = Inr (orc1, q1, True, v)"
    "sentinel_inv q1 vs" "set orc1 \<subseteq> set orc"
    "\<forall>b. store q b = None \<longrightarrow> store q1 b = None"
    by auto
  have t: "True \<notin> set orc1" using e(3) "4.prems"(2) by blast
  have d: "distinct (enqueue_addrs cs)" and f: "\<forall>b \<in> set (enqueue_addrs cs). store q1 b = None"
    using "4.prems"(3,4) e(4) by auto
  from "4.IH"[OF e(2) t d f] show ?case using e(1) by (auto split: prod.splits)
qed

section \<open>The thread pool: what a step does\<close>

lemma sum_in_flight_update:
  "i < length ts \<Longrightarrow>
     sum_list (map in_flight (ts[i := w])) + in_flight (ts ! i) = sum_list (map in_flight ts) + in_flight w"
  by (induction ts arbitrary: i) (auto split: nat.splits)

lemma mset_held_update:
  "i < length ts \<Longrightarrow>
     mset (concat (map held (ts[i := w]))) + mset (held (ts ! i))
       = mset (concat (map held ts)) + mset (held w)"
  by (induction ts arbitrary: i) (auto split: nat.splits)

lemma ids_ok_moved: "ids_ok p \<Longrightarrow> moved p p' \<Longrightarrow> ids_ok p'"
proof -
  assume a: "ids_ok p" "moved p p'"
  then have m: "mset (unstarted p') = mset (unstarted p)" and f: "futures p' = futures p"
    by (simp_all add: moved_def)
  have "distinct (unstarted p')" using a(1) mset_eq_imp_distinct_iff[OF m] by (simp add: ids_ok_def)
  moreover have "set (unstarted p') = set (unstarted p)" using m by (rule mset_eq_setD)
  ultimately show ?thesis using a(1) f by (simp add: ids_ok_def)
qed

lemma ids_ok_started: "ids_ok p \<Longrightarrow> started k p p' \<Longrightarrow> ids_ok p'"
proof -
  assume a: "ids_ok p" "started k p p'"
  then have m: "mset (unstarted p) = add_mset k (mset (unstarted p'))" by (simp add: started_def)
  have c: "count (mset (unstarted p)) x = count (mset (unstarted p')) x + (if x = k then 1 else 0)" for x
    unfolding m by simp
  have d: "count (mset (unstarted p)) x \<le> 1" for x
    using a(1) by (simp add: ids_ok_def distinct_count_atmost_1)
  have d': "count (mset (unstarted p')) x \<le> 1" for x
    using c[of x] d[of x] by (simp split: if_splits)
  have "count (mset (unstarted p')) k = 0" using c[of k] d[of k] by simp
  then have nk: "k \<notin> set (unstarted p')" by (simp add: count_eq_zero_iff)
  have sub: "x \<in> set (unstarted p') \<Longrightarrow> x \<in> set (unstarted p)" for x
    using c[of x] by (metis add_gr_0 count_greater_zero_iff set_mset_mset)
  have "count (mset (unstarted p')) x = (if x \<in> set (unstarted p') then 1 else 0)" for x
  proof (cases "x \<in> set (unstarted p')")
    case True
    then have "count (mset (unstarted p')) x \<noteq> 0" by (simp add: count_eq_zero_iff)
    with d'[of x] have "count (mset (unstarted p')) x = 1" by linarith
    with True show ?thesis by simp
  next
    case False
    then show ?thesis by (simp add: count_eq_zero_iff)
  qed
  then have "distinct (unstarted p')" by (simp add: distinct_count_atmost_1)
  moreover have "k' < length (futures p') \<and> futures p' ! k' = Pending"
    if "k' \<in> set (unstarted p')" for k'
  proof -
    have "k' \<noteq> k" using that nk by auto
    moreover have "k' < length (futures p) \<and> futures p ! k' = Pending"
      using sub[OF that] a(1) by (simp add: ids_ok_def)
    ultimately show ?thesis using a(2) by (simp add: started_def)
  qed
  ultimately show ?thesis by (simp add: ids_ok_def)
qed

lemma ids_ok_added: "ids_ok p \<Longrightarrow> added p p' \<Longrightarrow> ids_ok p'"
proof -
  assume a: "ids_ok p" "added p p'"
  let ?k = "length (futures p)"
  have m: "mset (unstarted p') = mset (?k # unstarted p)"
    and f: "futures p' = futures p @ [Pending]" using a by (simp_all add: added_def)
  have nk: "?k \<notin> set (unstarted p)" using a(1) unfolding ids_ok_def by auto
  have s: "set (unstarted p') = set (?k # unstarted p)" using m by (rule mset_eq_setD)
  have "distinct (?k # unstarted p)" using nk a(1) by (simp add: ids_ok_def)
  then have "distinct (unstarted p')" using mset_eq_imp_distinct_iff[OF m] by simp
  then show ?thesis using a(1) s f unfolding ids_ok_def by (auto simp: nth_append)
qed

lemma mset_held_update':
  "i < length ts \<Longrightarrow> held (ts ! i) = [] \<Longrightarrow>
     mset (concat (map held (ts[i := w]))) = mset (concat (map held ts)) + mset (held w)"
  using mset_held_update[of i ts w] by simp

lemma mset_held_update'':
  "i < length ts \<Longrightarrow> held (ts ! i) = [k] \<Longrightarrow> held w = [] \<Longrightarrow>
     add_mset k (mset (concat (map held (ts[i := w])))) = mset (concat (map held ts))"
  using mset_held_update[of i ts w] by simp

lemma sum_in_flight_same:
  "i < length ts \<Longrightarrow> in_flight (ts ! i) = in_flight w \<Longrightarrow>
     sum_list (map in_flight (ts[i := w])) = sum_list (map in_flight ts)"
  using sum_in_flight_update[of i ts w] by simp

lemma set_update_cases: "x \<in> set (ts[i := w]) \<Longrightarrow> x = w \<or> x \<in> set ts"
  using set_update_subset_insert[of ts i w] by auto

lemma none_free_update:
  "none_free p \<Longrightarrow> w \<noteq> AtRun None \<Longrightarrow> w \<noteq> AtDrainRun None \<Longrightarrow>
     sq_data (task_queue p') = sq_data (task_queue p) \<Longrightarrow> threads p' = (threads p)[i := w]
     \<Longrightarrow> none_free p'"
  unfolding none_free_def by (auto dest: set_update_cases)

lemma effect_local:
  assumes "none_free p" "i < length (threads p)"
    "p' = p\<lparr>threads := (threads p)[i := w']\<rparr>"
    "in_flight (threads p ! i) = 0" "in_flight w' = 0" "held (threads p ! i) = []" "held w' = []"
    "w' \<noteq> AtRun None" "w' \<noteq> AtDrainRun None"
  shows "effect Tau p p'"
  unfolding effect_def
proof (intro conjI)
  show "none_free p'" using assms by (auto intro: none_free_update)
  show "outstanding p' + dec Tau = outstanding p + inc Tau"
    using assms by (simp add: outstanding_def sum_in_flight_same)
  show "task_count p' = task_count p + of_nat (inc Tau) - of_nat (dec Tau)"
    using assms by simp
  show "moved p p' \<or> (\<exists>k. started k p p') \<or> added p p'"
    using assms by (intro disjI1) (simp add: moved_def unstarted_def queued_ids_def mset_held_update')
qed

lemma effect_pop:
  assumes "none_free p" "i < length (threads p)"
    "sq_data (task_queue p) = Some t # xs"
    "p' = p\<lparr>task_queue := (task_queue p)\<lparr>sq_data := xs\<rparr>, threads := (threads p)[i := w']\<rparr>"
    "in_flight (threads p ! i) = 0" "in_flight w' = 1" "held (threads p ! i) = []"
    "held w' = [future_id t]"
  shows "effect Tau p p'"
  unfolding effect_def
proof (intro conjI)
  have "w' \<noteq> AtRun None" "w' \<noteq> AtDrainRun None" using assms(8) by auto
  then show "none_free p'" using assms(1,3,4) unfolding none_free_def
    by (auto dest: set_update_cases)
  show "outstanding p' + dec Tau = outstanding p + inc Tau"
    using assms sum_in_flight_update[of i "threads p" w'] by (simp add: outstanding_def)
  show "task_count p' = task_count p + of_nat (inc Tau) - of_nat (dec Tau)"
    using assms by simp
  show "moved p p' \<or> (\<exists>k. started k p p') \<or> added p p'"
    using assms by (intro disjI1) (simp add: moved_def unstarted_def queued_ids_def mset_held_update')
qed

lemma effect_invoke:
  assumes "pool_inv p" "i < length (threads p)"
    "p' = p\<lparr>futures := invoke t (futures p), threads := (threads p)[i := w']\<rparr>"
    "in_flight (threads p ! i) = 1" "in_flight w' = 1" "held (threads p ! i) = [future_id t]"
    "held w' = []" "w' \<noteq> AtRun None" "w' \<noteq> AtDrainRun None"
  shows "effect (Invoked (future_id t)) p p'"
  unfolding effect_def
proof (intro conjI)
  show "none_free p'" using assms by (auto simp: pool_inv_def intro: none_free_update)
  show "outstanding p' + dec (Invoked (future_id t)) = outstanding p + inc (Invoked (future_id t))"
    using assms by (simp add: outstanding_def sum_in_flight_same)
  show "task_count p' = task_count p + of_nat (inc (Invoked (future_id t))) - of_nat (dec (Invoked (future_id t)))"
    using assms by simp
  have "started (future_id t) p p'"
    using assms(2,3,6,7) mset_held_update''[of i "threads p" "future_id t" w']
    by (simp add: started_def unstarted_def queued_ids_def invoke_def)
  then show "moved p p' \<or> (\<exists>k. started k p p') \<or> added p p'" by blast
qed

lemma effect_hook:
  assumes "none_free p" "i < length (threads p)"
    "p' = p\<lparr>task_count := task_count p - 1, threads := (threads p)[i := w']\<rparr>"
    "in_flight (threads p ! i) = 1" "in_flight w' = 0" "held (threads p ! i) = []"
    "held w' = []" "w' \<noteq> AtRun None" "w' \<noteq> AtDrainRun None"
  shows "effect (Completed k) p p'"
  unfolding effect_def
proof (intro conjI)
  show "none_free p'" using assms by (auto intro: none_free_update)
  show "outstanding p' + dec (Completed k) = outstanding p + inc (Completed k)"
    using assms sum_in_flight_update[of i "threads p" w'] by (simp add: outstanding_def)
  show "task_count p' = task_count p + of_nat (inc (Completed k)) - of_nat (dec (Completed k))"
    using assms by simp
  show "moved p p' \<or> (\<exists>k. started k p p') \<or> added p p'"
    using assms by (intro disjI1) (simp add: moved_def unstarted_def queued_ids_def mset_held_update')
qed

lemma step_Worker:
  assumes inv: "pool_inv p" and st: "step (Worker i) p = Some (ob, p')"
  shows "effect ob p p'"
proof -
  have i: "i < length (threads p)" using st by (simp split: if_splits)
  have nf: "none_free p" using inv by (simp add: pool_inv_def)
  show ?thesis
  proof (cases "threads p ! i")
    case AtLoop
    then have "p' = p\<lparr>threads := (threads p)[i := (if is_running p then AtPop else AtStopped)]\<rparr>"
      and "ob = Tau" using st i by auto
    then show ?thesis using effect_local[OF nf i, where p'=p'] AtLoop by simp
  next
    case AtPop
    show ?thesis
    proof (cases "sq_data (task_queue p)")
      case Nil
      then have "p' = p\<lparr>threads := (threads p)[i := AtLoop]\<rparr>" and "ob = Tau"
        using st i AtPop by (auto simp: SafeQueue_pop_def)
      then show ?thesis using effect_local[OF nf i, where p'=p'] AtPop by simp
    next
      case (Cons x xs)
      then obtain t where x: "x = Some t" using nf by (cases x) (auto simp: none_free_def)
      have "p' = p\<lparr>task_queue := (task_queue p)\<lparr>sq_data := xs\<rparr>, threads := (threads p)[i := AtRun (Some t)]\<rparr>"
        and "ob = Tau"
        using st i AtPop Cons x by (auto simp: SafeQueue_pop_def)
      then show ?thesis using effect_pop[OF nf i, where t=t and xs=xs and p'=p'] AtPop Cons x by simp
    qed
  next
    case (AtRun f)
    then obtain t where f: "f = Some t" using nf i by (cases f) (auto simp: none_free_def dest: nth_mem)
    have "p' = p\<lparr>futures := invoke t (futures p), threads := (threads p)[i := AtHook t]\<rparr>"
      and "ob = Invoked (future_id t)"
      using st i AtRun f by (auto simp: run_task_def)
    then show ?thesis using effect_invoke[OF inv i, where p'=p' and t=t] AtRun f by simp
  next
    case (AtHook t)
    then have "p' = p\<lparr>task_count := task_count p - 1, threads := (threads p)[i := AtLoop]\<rparr>"
      and "ob = Completed (future_id t)"
      using st i by (auto simp: run_hook_def)
    then show ?thesis using effect_hook[OF nf i, where p'=p'] AtHook by simp
  next
    case AtStopped
    then obtain w' where "p' = p\<lparr>threads := (threads p)[i := w']\<rparr>" "w' = AtDrainPop \<or> w' = Exited"
      and "ob = Tau" using st i by (auto split: variant.splits)
    then show ?thesis using effect_local[OF nf i, where p'=p' and w'=w'] AtStopped by auto
  next
    case AtDrainPop
    show ?thesis
    proof (cases "sq_data (task_queue p)")
      case Nil
      then have "p' = p\<lparr>threads := (threads p)[i := Exited]\<rparr>" and "ob = Tau"
        using st i AtDrainPop by (auto simp: SafeQueue_pop_def)
      then show ?thesis using effect_local[OF nf i, where p'=p'] AtDrainPop by simp
    next
      case (Cons x xs)
      then obtain t where x: "x = Some t" using nf by (cases x) (auto simp: none_free_def)
      have "p' = p\<lparr>task_queue := (task_queue p)\<lparr>sq_data := xs\<rparr>, threads := (threads p)[i := AtDrainRun (Some t)]\<rparr>"
        and "ob = Tau"
        using st i AtDrainPop Cons x by (auto simp: SafeQueue_pop_def)
      then show ?thesis using effect_pop[OF nf i, where t=t and xs=xs and p'=p'] AtDrainPop Cons x by simp
    qed
  next
    case (AtDrainRun f)
    then obtain t where f: "f = Some t" using nf i by (cases f) (auto simp: none_free_def dest: nth_mem)
    have "p' = p\<lparr>futures := invoke t (futures p), threads := (threads p)[i := AtDrainHook t]\<rparr>"
      and "ob = Invoked (future_id t)"
      using st i AtDrainRun f by (auto simp: run_task_def)
    then show ?thesis using effect_invoke[OF inv i, where p'=p' and t=t] AtDrainRun f by simp
  next
    case (AtDrainHook t)
    then have "p' = p\<lparr>task_count := task_count p - 1, threads := (threads p)[i := AtDrainPop]\<rparr>"
      and "ob = Completed (future_id t)"
      using st i by (auto simp: run_hook_def)
    then show ?thesis using effect_hook[OF nf i, where p'=p'] AtDrainHook by simp
  next
    case Exited
    then show ?thesis using st i by simp
  qed
qed

lemma step_Submit:
  assumes inv: "pool_inv p" and st: "step (Submit f) p = Some (ob, p')"
  shows "effect ob p p'"
proof (cases "is_running p")
  case False
  then have "p' = p" "\<exists>e. ob = Rejected e" using st by (auto simp: submit_def)
  then show ?thesis using inv by (auto simp: effect_def pool_inv_def moved_def)
next
  case True
  let ?k = "length (futures p)"
  have p': "p' = p\<lparr>futures := futures p @ [Pending], task_count := task_count p + 1,
               task_queue := SafeQueue_push (Some \<lparr>future_id = ?k, callable = f\<rparr>) (task_queue p)\<rparr>"
    and ob: "ob = Submitted ?k"
    using st True by (auto simp: submit_def Let_def)
  show ?thesis unfolding effect_def
  proof (intro conjI)
    show "none_free p'" using inv by (simp add: p' pool_inv_def none_free_def SafeQueue_push_def)
    show "outstanding p' + dec ob = outstanding p + inc ob"
      by (simp add: p' ob outstanding_def SafeQueue_push_def)
    show "task_count p' = task_count p + of_nat (inc ob) - of_nat (dec ob)"
      by (simp add: p' ob)
    have "added p p'"
      by (simp add: added_def p' unstarted_def queued_ids_def SafeQueue_push_def)
    then show "moved p p' \<or> (\<exists>k. started k p p') \<or> added p p'" by blast
  qed
qed

lemma step_Stop:
  assumes inv: "pool_inv p" and st: "step (Stop w) p = Some (ob, p')"
  shows "effect ob p p'"
proof -
  have "ob = Tau" "p' = stop w p" using st by auto
  then show ?thesis using inv
    by (auto simp: effect_def pool_inv_def moved_def stop_def none_free_def outstanding_def
        unstarted_def queued_ids_def)
qed

lemma step_WaitAll:
  assumes inv: "pool_inv p" and st: "step WaitAll p = Some (ob, p')"
  shows "effect ob p p'"
proof -
  have "ob = Tau" "p' = p" using st by (auto simp: wait_all_def split: if_splits)
  then show ?thesis using inv by (auto simp: effect_def pool_inv_def moved_def)
qed

lemma step_StopStep:
  assumes inv: "pool_inv p" and st: "step StopStep p = Some (ob, p')"
  shows "effect ob p p'"
proof (cases "stopper p")
  case NotStopping
  then show ?thesis using st by (simp add: stop_step_def)
next
  case Clearing
  have nf: "none_free p" using inv by (simp add: pool_inv_def)
  show ?thesis
  proof (cases "sq_data (task_queue p)")
    case Nil
    then have "ob = Tau" "p' = p\<lparr>stopper := Joining\<rparr>"
      using st Clearing by (auto simp: stop_step_def clear_queue_step_def SafeQueue_pop_def)
    then show ?thesis using inv
      by (auto simp: effect_def pool_inv_def moved_def none_free_def outstanding_def
          unstarted_def queued_ids_def)
  next
    case (Cons x xs)
    then obtain t where x: "x = Some t" using nf by (cases x) (auto simp: none_free_def)
    have p': "p' = p\<lparr>task_queue := (task_queue p)\<lparr>sq_data := xs\<rparr>, task_count := task_count p - 1,
                    futures := abandon (Some t) (futures p)\<rparr>"
      and ob: "ob = Discarded"
      using st Clearing Cons x by (auto simp: stop_step_def clear_queue_step_def SafeQueue_pop_def)
    show ?thesis unfolding effect_def
    proof (intro conjI)
      show "none_free p'" using nf Cons by (simp add: p' none_free_def)
      show "outstanding p' + dec ob = outstanding p + inc ob"
        using Cons by (simp add: p' ob outstanding_def)
      show "task_count p' = task_count p + of_nat (inc ob) - of_nat (dec ob)"
        by (simp add: p' ob)
      have "started (future_id t) p p'"
        using Cons x by (simp add: started_def p' unstarted_def queued_ids_def abandon_def)
      then show "moved p p' \<or> (\<exists>k. started k p p') \<or> added p p'" by blast
    qed
  qed
next
  case WaitingAll
  then have "ob = Tau" "p' = p\<lparr>stopper := Joining\<rparr>"
    using st by (auto simp: stop_step_def split: if_splits)
  then show ?thesis using inv
    by (auto simp: effect_def pool_inv_def moved_def none_free_def outstanding_def
        unstarted_def queued_ids_def)
next
  case Joining
  then have ob: "ob = Tau" and p': "p' = p\<lparr>threads := [], stopper := Stopped\<rparr>"
    and ex: "\<forall>w \<in> set (threads p). w = Exited"
    using st by (auto simp: stop_step_def list_all_iff split: if_splits)
  have z: "sum_list (map in_flight (threads p)) = 0" using ex by (auto simp: sum_list_eq_0_iff)
  have h: "concat (map held (threads p)) = []" using ex by auto
  show ?thesis using inv z h
    by (auto simp: effect_def pool_inv_def moved_def none_free_def outstanding_def
        unstarted_def queued_ids_def p' ob)
next
  case Stopped
  then show ?thesis using st by (simp add: stop_step_def)
qed

lemma step_effect:
  assumes "pool_inv p" "step ev p = Some (ob, p')"
  shows "effect ob p p'"
  using assms by (cases ev) (auto intro: step_Submit step_Stop step_StopStep step_WaitAll step_Worker simp del: step.simps)

lemma effect_inv:
  assumes "pool_inv p" "effect ob p p'"
  shows "pool_inv p'"
proof -
  have e: "outstanding p' + dec ob = outstanding p + inc ob" using assms(2) by (simp add: effect_def)
  have "task_count p' = of_nat (outstanding p) + of_nat (inc ob) - of_nat (dec ob)"
    using assms by (simp add: effect_def pool_inv_def)
  also have "\<dots> = of_nat (outstanding p + inc ob) - of_nat (dec ob)" by simp
  also have "\<dots> = of_nat (outstanding p' + dec ob) - of_nat (dec ob)" using e by simp
  also have "\<dots> = of_nat (outstanding p')" by simp
  finally have 1: "task_count p' = of_nat (outstanding p')" .
  have "ids_ok p'"
    using assms ids_ok_moved ids_ok_started ids_ok_added unfolding effect_def pool_inv_def by blast
  then show ?thesis using 1 assms(2) by (simp add: pool_inv_def effect_def)
qed

lemma pool_inv_new: "pool_inv (ThreadPool_new v n)"
  by (simp add: pool_inv_def ThreadPool_new_def outstanding_def none_free_def ids_ok_def
      unstarted_def queued_ids_def SafeQueue_new_def sum_list_replicate)

lemma submitted_append: "submitted (xs @ ys) = submitted xs + submitted ys"
  by (induction xs rule: submitted.induct) auto
lemma completed_append: "completed (xs @ ys) = completed xs + completed ys"
  by (induction xs rule: completed.induct) auto
lemma discarded_append: "discarded (xs @ ys) = discarded xs + discarded ys"
  by (induction xs rule: discarded.induct) auto

lemma obs_counts: "submitted [ob] = inc ob" "completed [ob] + discarded [ob] = dec ob"
  by (cases ob; simp)+

lemma run_accounting:
  assumes "run evs p = Some (log, p')" "pool_inv p"
  shows "pool_inv p' \<and> outstanding p' + completed log + discarded log = outstanding p + submitted log"
  using assms
proof (induction evs arbitrary: p log)
  case Nil
  then show ?case by simp
next
  case (Cons ev evs)
  then obtain ob p1 log1 where s: "step ev p = Some (ob, p1)" and r: "run evs p1 = Some (log1, p')"
    and l: "log = ob # log1"
    by (auto split: option.splits)
  have e: "effect ob p p1" using step_effect[OF Cons.prems(2) s] .
  then have i1: "pool_inv p1" using effect_inv Cons.prems(2) by blast
  from Cons.IH[OF r i1] have 2: "pool_inv p'"
    "outstanding p' + completed log1 + discarded log1 = outstanding p1 + submitted log1" by simp_all
  have 3: "outstanding p1 + dec ob = outstanding p + inc ob" using e by (simp add: effect_def)
  have "submitted log = inc ob + submitted log1" "completed log + discarded log = dec ob + completed log1 + discarded log1"
    using obs_counts[of ob] submitted_append[of "[ob]" log1] completed_append[of "[ob]" log1]
      discarded_append[of "[ob]" log1] unfolding l by simp_all
  then show ?case using 2 3 by simp
qed

lemma step_not_running:
  "step ev p = Some (ob, p') \<Longrightarrow> \<not> is_running p \<Longrightarrow> \<not> is_running p'"
proof (cases ev)
  case (Worker i)
  assume "step ev p = Some (ob, p')" "\<not> is_running p"
  then show ?thesis using Worker
    by (cases "threads p ! i")
      (auto simp: run_task_def run_hook_def SafeQueue_pop_def
        split: if_splits option.splits list.splits variant.splits)
qed (auto simp: submit_def stop_def stop_step_def clear_queue_step_def wait_all_def SafeQueue_pop_def
      split: if_splits stop_phase.splits list.splits)

lemma run_not_running:
  "run evs p = Some (log, p') \<Longrightarrow> \<not> is_running p \<Longrightarrow> \<not> is_running p'"
proof (induction evs arbitrary: p log)
  case Nil
  then show ?case by simp
next
  case (Cons ev evs)
  then obtain ob p1 log1 where s: "step ev p = Some (ob, p1)" and r: "run evs p1 = Some (log1, p')"
    by (auto split: option.splits)
  show ?case using Cons.IH[OF r] step_not_running[OF s] Cons.prems(2) by blast
qed

lemma step_wait_for_completion:
  "step ev p = Some (ob, p') \<Longrightarrow> wait_for_completion p' = wait_for_completion p"
proof (cases ev)
  case (Worker i)
  assume "step ev p = Some (ob, p')"
  then show ?thesis using Worker
    by (cases "threads p ! i")
      (auto simp: run_task_def run_hook_def SafeQueue_pop_def
        split: if_splits option.splits list.splits variant.splits)
qed (auto simp: submit_def stop_def stop_step_def clear_queue_step_def wait_all_def SafeQueue_pop_def Let_def
      split: if_splits stop_phase.splits list.splits)

lemma run_wait_for_completion:
  "run evs p = Some (log, p') \<Longrightarrow> wait_for_completion p' = wait_for_completion p"
proof (induction evs arbitrary: p log)
  case Nil
  then show ?case by simp
next
  case (Cons ev evs)
  then obtain ob p1 log1 where s: "step ev p = Some (ob, p1)" and r: "run evs p1 = Some (log1, p')"
    by (auto split: option.splits)
  show ?case using Cons.IH[OF r] step_wait_for_completion[OF s] by simp
qed

lemma invoke_stable:
  "k < length fs \<Longrightarrow> fs ! k \<noteq> Pending \<Longrightarrow> invoke t fs ! k = fs ! k \<and> length (invoke t fs) = length fs"
  by (auto simp: invoke_def nth_list_update)

lemma abandon_stable:
  "k < length fs \<Longrightarrow> fs ! k \<noteq> Pending \<Longrightarrow> abandon f fs ! k = fs ! k \<and> length (abandon f fs) = length fs"
  by (auto simp: abandon_def nth_list_update split: option.splits)

lemma step_future_stable:
  assumes "step ev p = Some (ob, p')" "k < length (futures p)" "futures p ! k \<noteq> Pending"
  shows "k < length (futures p') \<and> futures p' ! k = futures p ! k"
proof (cases ev)
  case (Worker i)
  then show ?thesis using assms invoke_stable[OF assms(2,3)]
    by (cases "threads p ! i")
      (auto simp: run_task_def run_hook_def SafeQueue_pop_def
        split: if_splits option.splits list.splits variant.splits)
next
  case StopStep
  then show ?thesis using assms abandon_stable[OF assms(2,3)]
    by (auto simp: stop_step_def clear_queue_step_def SafeQueue_pop_def
      split: if_splits stop_phase.splits list.splits)
qed (use assms in \<open>auto simp: submit_def stop_def wait_all_def Let_def nth_append split: if_splits\<close>)

lemma run_future_stable:
  "run evs p = Some (log, p') \<Longrightarrow> k < length (futures p) \<Longrightarrow> futures p ! k \<noteq> Pending
     \<Longrightarrow> k < length (futures p') \<and> futures p' ! k = futures p ! k"
proof (induction evs arbitrary: p log)
  case Nil
  then show ?case by simp
next
  case (Cons ev evs)
  then obtain ob p1 log1 where s: "step ev p = Some (ob, p1)" and r: "run evs p1 = Some (log1, p')"
    by (auto split: option.splits)
  from step_future_stable[OF s Cons.prems(2,3)]
  have 1: "k < length (futures p1)" "futures p1 ! k = futures p ! k" by simp_all
  then show ?case using Cons.IH[OF r 1(1)] Cons.prems(3) by simp
qed

lemma run_append:
  "run (xs @ ys) p =
     (case run xs p of
        None \<Rightarrow> None
      | Some (l1, p1) \<Rightarrow> (case run ys p1 of None \<Rightarrow> None | Some (l2, p2) \<Rightarrow> Some (l1 @ l2, p2)))"
  by (induction xs arbitrary: p) (auto split: option.splits)

lemma queued_unstarted:
  "sq_data (task_queue p) = Some t # xs \<Longrightarrow> future_id t \<in> set (unstarted p)"
  by (simp add: unstarted_def queued_ids_def)

lemma held_unstarted:
  "i < length (threads p) \<Longrightarrow> held (threads p ! i) = [k] \<Longrightarrow> k \<in> set (unstarted p)"
  unfolding unstarted_def by (auto intro!: bexI[of _ "threads p ! i"])

lemma worker_runs_held_task:
  assumes inv: "pool_inv p" and i: "i < length (threads p)"
    and w: "threads p ! i = AtRun (Some t)"
  shows "run [Worker i, Worker i] p
           = Some ([Invoked (future_id t), Completed (future_id t)],
                   p\<lparr>futures := (futures p)[future_id t := result_of (callable t)],
                     task_count := task_count p - 1,
                     threads := (threads p)[i := AtLoop]\<rparr>)"
proof -
  have "future_id t \<in> set (unstarted p)" using held_unstarted[OF i, of "future_id t"] w by simp
  then have "future_id t < length (futures p)" "futures p ! future_id t = Pending"
    using inv by (simp_all add: pool_inv_def ids_ok_def)
  then show ?thesis using i w
    by (simp add: run_task_def run_hook_def invoke_def result_of_def)
qed

lemma worker_drains_held_task:
  assumes inv: "pool_inv p" and i: "i < length (threads p)"
    and w: "threads p ! i = AtDrainRun (Some t)"
  shows "run [Worker i, Worker i] p
           = Some ([Invoked (future_id t), Completed (future_id t)],
                   p\<lparr>futures := (futures p)[future_id t := result_of (callable t)],
                     task_count := task_count p - 1,
                     threads := (threads p)[i := AtDrainPop]\<rparr>)"
proof -
  have "future_id t \<in> set (unstarted p)" using held_unstarted[OF i, of "future_id t"] w by simp
  then have "future_id t < length (futures p)" "futures p ! future_id t = Pending"
    using inv by (simp_all add: pool_inv_def ids_ok_def)
  then show ?thesis using i w
    by (simp add: run_task_def run_hook_def invoke_def result_of_def)
qed

lemma worker_takes_task:
  assumes i: "i < length (threads p)" and w: "threads p ! i = AtLoop" and r: "is_running p"
    and q: "sq_data (task_queue p) = Some t # xs"
  shows "run [Worker i, Worker i] p
           = Some ([Tau, Tau],
                   p\<lparr>task_queue := (task_queue p)\<lparr>sq_data := xs\<rparr>,
                     threads := (threads p)[i := AtRun (Some t)]\<rparr>)"
  using assms by (simp add: SafeQueue_pop_def)

lemma worker_serves_queue:
  assumes "pool_inv p" "is_running p" "i < length (threads p)" "threads p ! i = AtLoop"
    "sq_data (task_queue p) = map Some ts"
  shows "\<exists>log p'. run (replicate (4 * length ts) (Worker i)) p = Some (log, p')
           \<and> (\<forall>t \<in> set ts. future_id t < length (futures p') \<and>
                  futures p' ! future_id t = result_of (callable t))
           \<and> threads p' ! i = AtLoop \<and> is_running p' \<and> pool_inv p'"
  using assms
proof (induction ts arbitrary: p)
  case Nil
  then show ?case by simp
next
  case (Cons t ts)
  let ?p1 = "p\<lparr>task_queue := (task_queue p)\<lparr>sq_data := map Some ts\<rparr>,
                threads := (threads p)[i := AtRun (Some t)]\<rparr>"
  let ?p2 = "?p1\<lparr>futures := (futures ?p1)[future_id t := result_of (callable t)],
                  task_count := task_count ?p1 - 1,
                  threads := (threads ?p1)[i := AtLoop]\<rparr>"
  have q: "sq_data (task_queue p) = Some t # map Some ts" using Cons.prems(5) by simp
  have r1: "run [Worker i, Worker i] p = Some ([Tau, Tau], ?p1)"
    using worker_takes_task[OF Cons.prems(3,4,2) q] .
  have inv1: "pool_inv ?p1" using run_accounting[OF r1 Cons.prems(1)] by simp
  have i1: "i < length (threads ?p1)" and w1: "threads ?p1 ! i = AtRun (Some t)"
    using Cons.prems(3) by simp_all
  have r2: "run [Worker i, Worker i] ?p1
              = Some ([Invoked (future_id t), Completed (future_id t)], ?p2)"
    using worker_runs_held_task[OF inv1 i1 w1] .
  have inv2: "pool_inv ?p2" using run_accounting[OF r2 inv1] by simp
  have idt: "future_id t < length (futures p)"
    using queued_unstarted[OF q] Cons.prems(1) by (simp add: pool_inv_def ids_ok_def)
  have f2: "futures ?p2 ! future_id t = result_of (callable t)" using idt by simp
  have np: "result_of (callable t) \<noteq> Pending" by (simp add: result_of_def split: outcome.splits)
  from Cons.IH[of ?p2] inv2 Cons.prems(2,3)
  obtain log' p' where r3: "run (replicate (4 * length ts) (Worker i)) ?p2 = Some (log', p')"
    and rest: "\<forall>t \<in> set ts. future_id t < length (futures p') \<and>
                  futures p' ! future_id t = result_of (callable t)"
    and fin: "threads p' ! i = AtLoop" "is_running p'" "pool_inv p'"
    by auto
  have st: "future_id t < length (futures p') \<and> futures p' ! future_id t = result_of (callable t)"
    using run_future_stable[OF r3, of "future_id t"] idt f2 np by simp
  have e: "replicate (4 * length (t # ts)) (Worker i)
          = [Worker i, Worker i] @ [Worker i, Worker i] @ replicate (4 * length ts) (Worker i)"
    by (simp add: numeral_eq_Suc)
  have "run (replicate (4 * length (t # ts)) (Worker i)) p
          = Some ([Tau, Tau] @ [Invoked (future_id t), Completed (future_id t)] @ log', p')"
    unfolding e by (simp only: run_append r1 r2 r3 option.case prod.case)
  then show ?case using rest st fin by auto
qed

lemma all_Some: "None \<notin> set xs \<Longrightarrow> xs = map Some (map the xs)"
  by (induction xs) auto

lemma none_free_queue:
  "none_free p \<Longrightarrow> \<exists>ts. sq_data (task_queue p) = map Some ts"
proof -
  assume "none_free p"
  then have "None \<notin> set (sq_data (task_queue p))" by (simp add: none_free_def)
  then have "sq_data (task_queue p) = map Some (map the (sq_data (task_queue p)))"
    by (rule all_Some)
  then show ?thesis by (rule exI)
qed

lemma future_get_result:
  "future_get (result_of f)
     = (case f of Returns r \<Rightarrow> Some (Inr r) | Throws e \<Rightarrow> Some (Inl (Rethrown e)))"
  by (simp add: future_get_def result_of_def split: outcome.splits)

lemma wait_for_completion_constant:
  "run evs (ThreadPool_new v n) = Some (log, p) \<Longrightarrow> wait_for_completion p"
  using run_wait_for_completion[of evs "ThreadPool_new v n" log p] by (simp add: ThreadPool_new_def)

lemma stopped_worker_always_drains:
  assumes "run evs (ThreadPool_new v n) = Some (log, p)" "i < length (threads p)"
    "threads p ! i = AtStopped" "\<not> is_running p"
  shows "step (Worker i) p = Some (Tau, p\<lparr>threads := (threads p)[i := AtDrainPop]\<rparr>)"
  using assms wait_for_completion_constant[OF assms(1)] by (simp split: variant.splits)

section \<open>The properties the specification states\<close>

lemmas lfq_eval = enqueue_def enqueue_loop.simps dequeue_def dequeue_loop.simps LockFreeQueue_new_def
  compare_exchange_weak_def spurious_def rest_def lfq_repr_def payload_of_def is_live_def

lemmas pool_eval = ThreadPool_new_def submit_def stop_def SafeQueue_new_def SafeQueue_push_def
  SafeQueue_pop_def run_task_def run_hook_def invoke_def abandon_def stop_step_def
  clear_queue_step_def wait_all_def

text \<open>
  C1. Sequential FIFO order of both queues. A producer enqueues the values of
  \<open>avs\<close> in order on a fresh \<^verbatim>\<open>LockFreeQueue\<close> (each with the address its node is
  allocated at; the addresses of nodes alive together are distinct), whatever
  compare-exchanges fail spuriously; every call returns, with no fault. A consumer that
  then calls \<^verbatim>\<open>dequeue\<close> once more than there are values receives exactly these values
  in the same order, each with \<^verbatim>\<open>true\<close>, and \<^verbatim>\<open>false\<close> from the last call, which
  leaves the output variable as it was. The same holds for \<^verbatim>\<open>push\<close> and \<^verbatim>\<open>pop\<close> of
  \<^verbatim>\<open>SafeQueue\<close>.
\<close>

theorem fifo_sequential:
  "(distinct (a0 # map fst avs) \<longrightarrow>
      (\<exists>orc' q'. enqueue_all avs orc (LockFreeQueue_new st a0) = Some (Inr (orc', q'))
         \<and> (\<exists>orc'' q''. dequeue_n (Suc (length avs)) orc2 q' val
                           = Inr (received val (map snd avs), orc'', q''))))
   \<and> fst (pop_n (Suc (length vs)) (push_all vs SafeQueue_new) val) = received val vs"
proof (intro conjI impI)
  assume d: "distinct (a0 # map fst avs)"
  have "tail_within (LockFreeQueue_new st a0) a0 []"
    by (simp add: tail_within_def LockFreeQueue_new_def)
  moreover have "set (map fst avs) \<inter> set (a0 # []) = {}" using d by auto
  ultimately obtain orc' q' where 1: "enqueue_all avs orc (LockFreeQueue_new st a0) = Some (Inr (orc', q'))"
    "lfq_repr q' a0 ([] @ map fst avs) ([] @ map snd avs)"
    using enqueue_all_repr[OF LockFreeQueue_new_repr(1), of st a0 avs orc] d by auto
  from dequeue_n_drains[OF 1(2), of orc2 val]
  obtain orc'' q'' where "dequeue_n (Suc (length avs)) orc2 q' val
        = Inr (received val (map snd avs), orc'', q'')" by auto
  with 1(1) show "\<exists>orc' q'. enqueue_all avs orc (LockFreeQueue_new st a0) = Some (Inr (orc', q'))
         \<and> (\<exists>orc'' q''. dequeue_n (Suc (length avs)) orc2 q' val
                           = Inr (received val (map snd avs), orc'', q''))" by blast
next
  show "fst (pop_n (Suc (length vs)) (push_all vs SafeQueue_new) val) = received val vs"
    using pop_n_drains[of "push_all vs SafeQueue_new" vs val]
    by (simp add: push_all_data SafeQueue_new_def)
qed

theorem fifo_sequential_witness:
  "distinct (0 # map fst [(1::nat, 10::nat), (2, 20)])
   \<and> (\<exists>orc' q'. enqueue_all [(1, 10::nat), (2, 20)] [False, True, True] (LockFreeQueue_new Map.empty 0)
                   = Some (Inr (orc', q'))
        \<and> (\<exists>orc'' q''. dequeue_n (Suc (length [(1::nat, 10::nat), (2, 20)])) [True] q' 0
                          = Inr ([(True, 10), (True, 20), (False, 20)], orc'', q'')))
   \<and> fst (pop_n (Suc (length [10::nat, 20])) (push_all [10::nat, 20] SafeQueue_new) 0)
       = [(True, 10), (True, 20), (False, 20)]"
proof -
  have d: "distinct (0 # map fst [(1::nat, 10::nat), (2, 20)])" by simp
  have r: "received (0::nat) (map snd [(1::nat, 10::nat), (2, 20)]) = [(True, 10), (True, 20), (False, 20)]"
    "received (0::nat) [10, 20] = [(True, 10), (True, 20), (False, 20)]"
    by (simp_all add: received_def)
  show ?thesis
    using d fifo_sequential[where ?a0.0 = 0 and avs = "[(1::nat, 10::nat), (2, 20)]"
        and orc = "[False, True, True]" and st = Map.empty and ?orc2.0 = "[True]"
        and val = "0::nat" and vs = "[10::nat, 20]"]
    unfolding r by blast
qed

text \<open>
  C2. The contract of \<^verbatim>\<open>dequeue\<close> and \<^verbatim>\<open>pop\<close>. On a \<^verbatim>\<open>LockFreeQueue\<close> whose
  sentinel-headed list holds \<open>vs\<close>, \<^verbatim>\<open>dequeue\<close> returns with no fault; it returns
  \<^verbatim>\<open>true\<close> exactly when \<open>vs\<close> is not empty, and then the output is the oldest element
  and the queue holds the rest; on an empty queue it returns \<^verbatim>\<open>false\<close> and leaves the
  output and the queue as they were. \<^verbatim>\<open>SafeQueue::pop\<close> does the same on its deque.
\<close>

theorem dequeue_contract:
  "(lfq_repr q s cs vs \<longrightarrow>
      (\<exists>orc' q'. dequeue orc q val
                    = Inr (orc', q', vs \<noteq> [], (case vs of [] \<Rightarrow> val | v # _ \<Rightarrow> v))
         \<and> (case cs of [] \<Rightarrow> q' = q | c # cs' \<Rightarrow> lfq_repr q' c cs' (tl vs))))
   \<and> SafeQueue_pop p val
       = (sq_data p \<noteq> [],
          (case sq_data p of [] \<Rightarrow> p | v # xs \<Rightarrow> p\<lparr>sq_data := xs\<rparr>),
          (case sq_data p of [] \<Rightarrow> val | v # _ \<Rightarrow> v))"
proof (intro conjI impI)
  assume r: "lfq_repr q s cs vs"
  show "\<exists>orc' q'. dequeue orc q val
                    = Inr (orc', q', vs \<noteq> [], (case vs of [] \<Rightarrow> val | v # _ \<Rightarrow> v))
         \<and> (case cs of [] \<Rightarrow> q' = q | c # cs' \<Rightarrow> lfq_repr q' c cs' (tl vs))"
  proof (cases cs)
    case Nil
    then have "vs = []" using lfq_repr_lengths[OF r] by simp
    then show ?thesis using dequeue_empty[of q s orc val] r Nil by simp
  next
    case (Cons c cs')
    then obtain v vs' where vs: "vs = v # vs'" using lfq_repr_lengths[OF r] by (cases vs) auto
    show ?thesis
      using dequeue_nonempty[of q s c cs' v vs' orc val] dequeued_repr[of q s c cs' v vs'] r Cons vs
      by simp
  qed
next
  show "SafeQueue_pop p val
       = (sq_data p \<noteq> [],
          (case sq_data p of [] \<Rightarrow> p | v # xs \<Rightarrow> p\<lparr>sq_data := xs\<rparr>),
          (case sq_data p of [] \<Rightarrow> val | v # _ \<Rightarrow> v))"
    by (simp add: SafeQueue_pop_def split: list.splits)
qed

theorem dequeue_contract_witness:
  "lfq_repr \<lparr>store = [0 \<mapsto> \<lparr>data = Null, next = Some 1\<rparr>, 1 \<mapsto> \<lparr>data = Live (10::nat), next = None\<rparr>],
             head = Some 0, tail = Some 1\<rparr> 0 [1] [10]
   \<and> (\<exists>orc' q'. dequeue [True, False]
          \<lparr>store = [0 \<mapsto> \<lparr>data = Null, next = Some 1\<rparr>, 1 \<mapsto> \<lparr>data = Live (10::nat), next = None\<rparr>],
            head = Some 0, tail = Some 1\<rparr> 0 = Inr (orc', q', True, 10)
        \<and> lfq_repr q' 1 [] [])"
  using dequeue_contract[of
     "\<lparr>store = [0 \<mapsto> \<lparr>data = Null, next = Some 1\<rparr>, 1 \<mapsto> \<lparr>data = Live (10::nat), next = None\<rparr>],
             head = Some 0, tail = Some 1\<rparr>" 0 "[1]" "[10]" "[True, False]" 0]
  by (simp add: lfq_repr_def payload_of_def is_live_def)

text \<open>
  C3. The specification: after \<^verbatim>\<open>stop(false)\<close> a worker leaves without executing
  what is still queued. The code: \<^verbatim>\<open>worker_thread\<close> tests the member
  \<^verbatim>\<open>wait_for_completion_\<close>, which the constructor sets and nothing assigns afterwards. In
  the schedule below a pool of one worker gets one task and \<^verbatim>\<open>stop(false)\<close>; the worker
  sees the flag down before \<^verbatim>\<open>clear_queue\<close> has popped the task, enters the draining
  loop and runs the task: its future is ready with the value \<open>7\<close>.
\<close>

theorem worker_drains_after_abandon:
  "run [Submit (Returns 7), Stop False, Worker 0, Worker 0, Worker 0, Worker 0]
       (ThreadPool_new Locked 1 :: (unit, nat) ThreadPool)
     = Some ([Submitted 0, Tau, Tau, Tau, Tau, Invoked 0],
             \<lparr>variant = Locked, wait_for_completion = True, is_running = False, task_count = 1,
              threads = [AtDrainHook \<lparr>future_id = 0, callable = Returns 7\<rparr>],
              task_queue = \<lparr>sq_data = []\<rparr>, futures = [Ready 7], stopper = Clearing\<rparr>)"
  by (simp add: ThreadPool_new_def submit_def stop_def SafeQueue_new_def SafeQueue_push_def
      SafeQueue_pop_def run_task_def invoke_def)

text \<open>
  C4. The outstanding counter. After any schedule from a fresh pool, with any mix of
  tasks that return, throw or are discarded by \<^verbatim>\<open>stop(false)\<close>: the number of tasks
  completed or discarded never exceeds the number submitted; \<^verbatim>\<open>task_count_\<close> is their
  difference (as a 64-bit unsigned value, and read back exactly while the difference is
  below \<open>2^64\<close>), which is the number of tasks queued or held by a worker; and
  \<^verbatim>\<open>pending_tasks()\<close> reads zero once every submitted task has completed or been
  discarded.
\<close>

theorem outstanding_counter_discipline:
  assumes "run evs (ThreadPool_new v n) = Some (log, p)"
  shows "completed log + discarded log \<le> submitted log
       \<and> pending_tasks p = of_nat (submitted log - (completed log + discarded log))
       \<and> submitted log - (completed log + discarded log) = outstanding p
       \<and> (submitted log - (completed log + discarded log) < 2 ^ 64
            \<longrightarrow> unat (pending_tasks p) = submitted log - (completed log + discarded log))
       \<and> (completed log + discarded log = submitted log \<longrightarrow> pending_tasks p = 0)"
proof -
  have o0: "outstanding (ThreadPool_new v n :: ('a, 'b) ThreadPool) = 0"
    by (simp add: outstanding_def ThreadPool_new_def SafeQueue_new_def sum_list_replicate)
  from run_accounting[OF assms pool_inv_new]
  have inv: "pool_inv p" and acc: "outstanding p + completed log + discarded log = submitted log"
    using o0 by simp_all
  have pt: "pending_tasks p = of_nat (outstanding p)"
    using inv by (simp add: pool_inv_def pending_tasks_def)
  have d: "submitted log - (completed log + discarded log) = outstanding p" using acc by simp
  have "outstanding p < 2 ^ 64 \<Longrightarrow> unat (pending_tasks p) = outstanding p"
    unfolding pt by (rule of_nat_inverse) simp_all
  moreover have "pending_tasks p = 0" if "completed log + discarded log = submitted log"
  proof -
    have "outstanding p = 0" using acc that by linarith
    then show ?thesis using pt by simp
  qed
  moreover have "completed log + discarded log \<le> submitted log" using acc by linarith
  ultimately show ?thesis using pt d by simp
qed

theorem outstanding_counter_discipline_witness:
  "\<exists>log p. run [Submit (Returns 1), Submit (Throws ()), Submit (Returns 3),
                Worker 0, Worker 0, Worker 0, Worker 0, Stop False, StopStep]
               (ThreadPool_new Locked 1 :: (unit, nat) ThreadPool) = Some (log, p)
      \<and> submitted log = 3 \<and> completed log = 1 \<and> discarded log = 1
      \<and> pending_tasks p = 1 \<and> outstanding p = 1"
proof -
  obtain log p where r: "run [Submit (Returns 1), Submit (Throws ()), Submit (Returns 3),
                Worker 0, Worker 0, Worker 0, Worker 0, Stop False, StopStep]
               (ThreadPool_new Locked 1 :: (unit, nat) ThreadPool) = Some (log, p)"
    and c: "submitted log = 3" "completed log = 1" "discarded log = 1"
    by (simp add: pool_eval)
  show ?thesis using r c outstanding_counter_discipline[OF r] by auto
qed

text \<open>
  C5. Submission after stop. On a pool that is not running \<^verbatim>\<open>submit\<close> throws the
  runtime error of its variant (\<^verbatim>\<open>ThreadPool is stopped\<close>, \<^verbatim>\<open>ThreadPool is not running\<close>)
  and leaves the pool, so also the counter, as it was.
\<close>

theorem submit_after_stop:
  assumes "\<not> is_running p"
  shows "submit f p
           = (Inl (runtime_error (case variant p of
                                    Locked \<Rightarrow> ''ThreadPool is stopped''
                                  | LockFree \<Rightarrow> ''ThreadPool is not running'')), p)
         \<and> pending_tasks (snd (submit f p)) = pending_tasks p"
  using assms by (simp add: submit_def)

theorem submit_after_stop_witness:
  "\<not> is_running (stop False (ThreadPool_new Locked 2 :: (unit, nat) ThreadPool))
   \<and> submit (Returns 1) (stop False (ThreadPool_new Locked 2 :: (unit, nat) ThreadPool))
       = (Inl (runtime_error ''ThreadPool is stopped''),
          stop False (ThreadPool_new Locked 2))
   \<and> pending_tasks (snd (submit (Returns 1) (stop False (ThreadPool_new Locked 2 :: (unit, nat) ThreadPool)))) = 0"
proof -
  have h: "\<not> is_running (stop False (ThreadPool_new Locked 2 :: (unit, nat) ThreadPool))"
    by (simp add: stop_def ThreadPool_new_def)
  have v: "variant (stop False (ThreadPool_new Locked 2 :: (unit, nat) ThreadPool)) = Locked"
    "pending_tasks (stop False (ThreadPool_new Locked 2 :: (unit, nat) ThreadPool)) = 0"
    by (simp_all add: stop_def ThreadPool_new_def pending_tasks_def)
  show ?thesis using h submit_after_stop[OF h, of "Returns 1"] by (simp add: v)
qed

text \<open>
  C6. The round trip of an exception. In any state a schedule reaches from a fresh
  pool, let worker \<open>i\<close> hold a popped task whose callable throws \<open>e\<close>. Its next two steps
  invoke the task and run the completion hook: the task's shared state then holds \<open>e\<close>,
  so \<^verbatim>\<open>get\<close> on the future rethrows it, now and after any further steps; the worker is
  back at the head of its loop (or of the draining loop) and the running flag is
  untouched. If the pool is running, a callable \<open>f\<close> submitted next is accepted, and
  when worker \<open>i\<close> alone serves the queue, four steps a task, the future of \<open>f\<close> holds
  its result.
\<close>

theorem exception_round_trip:
  assumes reach: "run evs (ThreadPool_new v n) = Some (log, p)"
    and i: "i < length (threads p)"
    and w: "threads p ! i = AtRun (Some t) \<or> threads p ! i = AtDrainRun (Some t)"
    and thr: "callable t = Throws e"
  shows "\<exists>p1. run [Worker i, Worker i] p
                 = Some ([Invoked (future_id t), Completed (future_id t)], p1)
      \<and> future_get (futures p1 ! future_id t) = Some (Inl (Rethrown e))
      \<and> (\<forall>evs' log' p'. run evs' p1 = Some (log', p')
             \<longrightarrow> future_get (futures p' ! future_id t) = Some (Inl (Rethrown e)))
      \<and> threads p1 ! i = (if threads p ! i = AtRun (Some t) then AtLoop else AtDrainPop)
      \<and> is_running p1 = is_running p
      \<and> (is_running p \<and> threads p ! i = AtRun (Some t) \<longrightarrow>
           (\<exists>k p2 log' p3. submit f p1 = (Inr k, p2)
              \<and> run (replicate (4 * length (sq_data (task_queue p2))) (Worker i)) p2 = Some (log', p3)
              \<and> future_get (futures p3 ! k)
                   = (case f of Returns r \<Rightarrow> Some (Inr r) | Throws e' \<Rightarrow> Some (Inl (Rethrown e')))))"
proof -
  have inv: "pool_inv p" using run_accounting[OF reach pool_inv_new] by simp
  define w' :: "('a, 'b) worker" where "w' = (if threads p ! i = AtRun (Some t) then AtLoop else AtDrainPop)"
  define p1 where "p1 = p\<lparr>futures := (futures p)[future_id t := result_of (callable t)],
                     task_count := task_count p - 1,
                     threads := (threads p)[i := w']\<rparr>"
  have r: "run [Worker i, Worker i] p = Some ([Invoked (future_id t), Completed (future_id t)], p1)"
  proof (cases "threads p ! i = AtRun (Some t)")
    case True
    then have "w' = AtLoop" by (simp add: w'_def)
    then show ?thesis using worker_runs_held_task[OF inv i True] by (simp only: p1_def)
  next
    case False
    then have d: "threads p ! i = AtDrainRun (Some t)" using w by simp
    have "w' = AtDrainPop" using False by (simp add: w'_def)
    then show ?thesis using worker_drains_held_task[OF inv i d] by (simp only: p1_def)
  qed
  have inv1: "pool_inv p1" using run_accounting[OF r inv] by simp
  have "future_id t \<in> set (unstarted p)" using held_unstarted[OF i, of "future_id t"] w by auto
  then have idt: "future_id t < length (futures p)" using inv by (simp add: pool_inv_def ids_ok_def)
  have f1: "futures p1 ! future_id t = Failed e" using idt thr by (simp add: p1_def result_of_def)
  have g1: "future_get (futures p1 ! future_id t) = Some (Inl (Rethrown e))"
    using f1 by (simp add: future_get_def)
  have stable: "future_get (futures p' ! future_id t) = Some (Inl (Rethrown e))"
    if "run evs' p1 = Some (log', p')" for evs' log' p'
    using run_future_stable[OF that, of "future_id t"] idt f1 g1 by (simp add: p1_def)
  have th: "threads p1 ! i = w'" using i by (simp add: p1_def)
  have ir: "is_running p1 = is_running p" by (simp add: p1_def)
  have usable: "\<exists>k p2 log' p3. submit f p1 = (Inr k, p2)
              \<and> run (replicate (4 * length (sq_data (task_queue p2))) (Worker i)) p2 = Some (log', p3)
              \<and> future_get (futures p3 ! k)
                   = (case f of Returns r \<Rightarrow> Some (Inr r) | Throws e' \<Rightarrow> Some (Inl (Rethrown e')))"
    if run: "is_running p" and at: "threads p ! i = AtRun (Some t)"
  proof -
    let ?k = "length (futures p1)"
    let ?t = "\<lparr>future_id = ?k, callable = f\<rparr>"
    define p2 where "p2 = p1\<lparr>futures := futures p1 @ [Pending], task_count := task_count p1 + 1,
               task_queue := SafeQueue_push (Some ?t) (task_queue p1)\<rparr>"
    have s: "submit f p1 = (Inr ?k, p2)" using run ir by (simp add: submit_def p2_def Let_def)
    then have "step (Submit f) p1 = Some (Submitted ?k, p2)" by simp
    then have inv2: "pool_inv p2" using step_effect[OF inv1] effect_inv[OF inv1] by blast
    obtain ts where ts: "sq_data (task_queue p1) = map Some ts"
      using none_free_queue inv1 by (auto simp: pool_inv_def)
    have q2: "sq_data (task_queue p2) = map Some (ts @ [?t])"
      using ts by (simp add: p2_def SafeQueue_push_def)
    have "is_running p2" "i < length (threads p2)" "threads p2 ! i = AtLoop"
      using run ir i th at by (simp_all add: p2_def p1_def w'_def)
    from worker_serves_queue[OF inv2 this q2]
    obtain log' p3 where r3: "run (replicate (4 * length (ts @ [?t])) (Worker i)) p2 = Some (log', p3)"
      and all: "\<forall>t \<in> set (ts @ [?t]). future_id t < length (futures p3) \<and>
                  futures p3 ! future_id t = result_of (callable t)"
      by blast
    have "futures p3 ! ?k = result_of f" using all by simp
    then have "future_get (futures p3 ! ?k)
                = (case f of Returns r \<Rightarrow> Some (Inr r) | Throws e' \<Rightarrow> Some (Inl (Rethrown e')))"
      by (simp add: future_get_result)
    moreover have "length (sq_data (task_queue p2)) = length (ts @ [?t])" using q2 by (metis length_map)
    ultimately show ?thesis using s r3 by metis
  qed
  show ?thesis using r g1 stable th ir usable unfolding w'_def by blast
qed

theorem exception_round_trip_witness:
  "\<exists>log p. run [Submit (Throws ''Test exception''), Worker 0, Worker 0]
               (ThreadPool_new Locked 2 :: (string, nat) ThreadPool) = Some (log, p)
      \<and> 0 < length (threads p)
      \<and> threads p ! 0 = AtRun (Some \<lparr>future_id = 0, callable = Throws ''Test exception''\<rparr>)
      \<and> is_running p
      \<and> (\<exists>p1. run [Worker 0, Worker 0] p = Some ([Invoked 0, Completed 0], p1)
            \<and> future_get (futures p1 ! 0) = Some (Inl (Rethrown ''Test exception''))
            \<and> threads p1 ! 0 = AtLoop \<and> is_running p1
            \<and> (\<exists>k p2 log' p3. submit (Returns 5) p1 = (Inr k, p2)
                  \<and> run (replicate (4 * length (sq_data (task_queue p2))) (Worker 0)) p2 = Some (log', p3)
                  \<and> future_get (futures p3 ! k) = Some (Inr 5)))"
proof -
  let ?t = "\<lparr>future_id = 0, callable = Throws ''Test exception''\<rparr> :: (string, nat) Task"
  obtain log p where r: "run [Submit (Throws ''Test exception''), Worker 0, Worker 0]
               (ThreadPool_new Locked 2 :: (string, nat) ThreadPool) = Some (log, p)"
    and i: "0 < length (threads p)" and w: "threads p ! 0 = AtRun (Some ?t)" and ir: "is_running p"
    by (simp add: pool_eval)
  have w': "threads p ! 0 = AtRun (Some ?t) \<or> threads p ! 0 = AtDrainRun (Some ?t)" using w by simp
  have c: "callable ?t = Throws ''Test exception''" by simp
  show ?thesis
    using r i w ir exception_round_trip[OF r i w' c, of "Returns 5"] by auto
qed

text \<open>
  C7. Stop is idempotent. A first call of \<^verbatim>\<open>stop\<close>, on a running pool, takes the
  flag from true to false in its exchange and goes on to stop the pool. On a pool that is
  not running \<^verbatim>\<open>stop\<close> changes nothing. After \<^verbatim>\<open>stop\<close> and any further steps of any
  thread the flag is still false, and one more \<^verbatim>\<open>stop\<close>, with either argument, is a
  step that changes nothing.
\<close>

theorem stop_idempotent:
  "(is_running p \<longrightarrow> \<not> is_running (stop wait p) \<and> stopper (stop wait p) \<noteq> NotStopping)
   \<and> (\<not> is_running p \<longrightarrow> stop wait p = p)
   \<and> (run evs (stop wait p) = Some (log, p')
        \<longrightarrow> \<not> is_running p' \<and> stop wait' p' = p' \<and> step (Stop wait') p' = Some (Tau, p'))"
proof (intro conjI impI)
  assume "is_running p"
  then show "\<not> is_running (stop wait p)" "stopper (stop wait p) \<noteq> NotStopping"
    by (simp_all add: stop_def split: variant.splits)
next
  assume "\<not> is_running p"
  then show "stop wait p = p" by (simp add: stop_def)
next
  assume r: "run evs (stop wait p) = Some (log, p')"
  have "\<not> is_running (stop wait p)" by (simp add: stop_def)
  then show n: "\<not> is_running p'" using run_not_running[OF r] by simp
  then show "stop wait' p' = p'" by (simp add: stop_def)
  then show "step (Stop wait') p' = Some (Tau, p')" by simp
qed

theorem stop_idempotent_witness:
  "is_running (ThreadPool_new Locked 1 :: (unit, nat) ThreadPool)
   \<and> \<not> is_running (stop False (ThreadPool_new Locked 1 :: (unit, nat) ThreadPool))
   \<and> \<not> is_running (stop True (ThreadPool_new Locked 1 :: (unit, nat) ThreadPool))
   \<and> (\<exists>log p'. run [Worker 0, StopStep, Stop True] (stop False (ThreadPool_new Locked 1 :: (unit, nat) ThreadPool))
                   = Some (log, p')
         \<and> \<not> is_running p' \<and> stop True p' = p' \<and> stop False p' = p')"
proof -
  let ?p = "ThreadPool_new Locked 1 :: (unit, nat) ThreadPool"
  have a: "is_running ?p" by (simp add: ThreadPool_new_def)
  obtain log p' where r: "run [Worker 0, StopStep, Stop True] (stop False ?p) = Some (log, p')"
    by (simp add: stop_def ThreadPool_new_def stop_step_def clear_queue_step_def SafeQueue_pop_def
        SafeQueue_new_def)
  show ?thesis
    using a r stop_idempotent[of ?p False "[Worker 0, StopStep, Stop True]" log p' True]
      stop_idempotent[of ?p True "[]" "[]" "stop True ?p" True]
      stop_idempotent[of ?p False "[Worker 0, StopStep, Stop True]" log p' False]
    by auto
qed

text \<open>
  C8. The specification: the sentinel invariant is kept by every \<^verbatim>\<open>enqueue\<close>,
  \<^verbatim>\<open>dequeue\<close> and \<^verbatim>\<open>clear\<close> of a single thread. The code: on a fresh queue,
  \<^verbatim>\<open>enqueue(10)\<close> links the node and its last compare-exchange, the one that advances
  \<^verbatim>\<open>tail_\<close>, fails spuriously; the queue has its sentinel and holds \<open>[10]\<close>, with
  \<^verbatim>\<open>tail_\<close> at the sentinel. \<^verbatim>\<open>dequeue\<close> returns \<open>10\<close> and deletes the sentinel;
  \<^verbatim>\<open>tail_\<close> still points to it. The next \<^verbatim>\<open>enqueue(20)\<close> dereferences the deleted
  node.
\<close>

theorem sentinel_lost_after_lagging_tail:
  "\<exists>orc1 q1 orc2 q2.
      enqueue 1 (10::nat) [False, True] (LockFreeQueue_new Map.empty 0) = Some (Inr (orc1, q1))
    \<and> lfq_repr q1 0 [1] [10] \<and> tail q1 = Some 0
    \<and> dequeue orc1 q1 0 = Inr (orc2, q2, True, 10)
    \<and> lfq_repr q2 1 [] [] \<and> tail q2 = Some 0 \<and> store q2 0 = None
    \<and> enqueue 2 20 orc2 q2 = Some (Inl UseAfterFree)"
  by (simp add: lfq_eval)

text \<open>
  C9. \<^verbatim>\<open>block_pop\<close> never returns \<^verbatim>\<open>false\<close>. Whenever it returns, it returns
  \<^verbatim>\<open>true\<close>; the deque it found non-empty (the first such among the one at the call and
  those at the wake-ups) has lost its front element, which is in the output. While the
  deque is empty the call only waits again (\<open>block_pop_returns\<close>: it returns exactly
  when one of these deques is non-empty).
\<close>

theorem block_pop_never_false:
  assumes "SafeQueue_block_pop q wakes val = Some (r, q', val')"
  shows "r \<and> (\<exists>d. find (\<lambda>d. d \<noteq> []) (sq_data q # wakes) = Some d
                 \<and> val' = hd d \<and> q' = q\<lparr>sq_data := tl d\<rparr>)"
  using assms
proof (induction q wakes val rule: SafeQueue_block_pop.induct)
  case (1 q wakes val)
  show ?case
  proof (cases "sq_data q")
    case Nil
    note q = Nil
    show ?thesis
    proof (cases wakes)
      case Nil
      then show ?thesis using "1.prems" q by simp
    next
      case (Cons d ws)
      then have "SafeQueue_block_pop (q\<lparr>sq_data := d\<rparr>) ws val = Some (r, q', val')"
        using "1.prems" q by simp
      from "1.IH"[OF q Cons this] show ?thesis using q Cons by auto
    qed
  next
    case (Cons x xs)
    then show ?thesis using "1.prems" by auto
  qed
qed

lemma block_pop_returns:
  "(\<exists>d \<in> set (sq_data q # wakes). d \<noteq> []) \<longleftrightarrow> SafeQueue_block_pop q wakes val \<noteq> None"
proof (induction q wakes val rule: SafeQueue_block_pop.induct)
  case (1 q wakes val)
  show ?case
  proof (cases "sq_data q")
    case Nil
    note q = Nil
    show ?thesis
    proof (cases wakes)
      case Nil
      then show ?thesis using q by simp
    next
      case (Cons d ws)
      from "1.IH"[OF q Cons] show ?thesis using q Cons by simp
    qed
  next
    case (Cons x xs)
    then show ?thesis by simp
  qed
qed

theorem block_pop_never_false_witness:
  "SafeQueue_block_pop \<lparr>sq_data = []\<rparr> [[], [5, 6]] (0::nat) = Some (True, \<lparr>sq_data = [6]\<rparr>, 5)
   \<and> find (\<lambda>d. d \<noteq> []) (sq_data \<lparr>sq_data = []\<rparr> # [[], [5, 6::nat]]) = Some [5, 6]"
proof -
  have e: "SafeQueue_block_pop \<lparr>sq_data = []\<rparr> [[], [5, 6]] (0::nat) = Some (True, \<lparr>sq_data = [6]\<rparr>, 5)"
    by simp
  show ?thesis using block_pop_never_false[OF e] e by simp
qed

text \<open>
  C10. \<^verbatim>\<open>dequeue\<close> on a null head. When \<^verbatim>\<open>head_\<close> is \<^verbatim>\<open>nullptr\<close>, \<^verbatim>\<open>dequeue\<close>
  returns \<^verbatim>\<open>false\<close> with no fault and leaves the queue and the output as they were;
  this is the state of the source queue after a move construction and after a move
  assignment to another queue object. (A queue assigned to itself is left as it is, by
  the guard of the assignment.)
\<close>

theorem dequeue_null_head:
  "(head q = None \<longrightarrow> dequeue orc q val = Inr (orc, q, False, val))
   \<and> dequeue orc (snd (LockFreeQueue_move other)) val
       = Inr (orc, snd (LockFreeQueue_move other), False, val)
   \<and> (this_at \<noteq> other_at
        \<and> LockFreeQueue_move_assign orc0 dummy this_at this other_at other
            = Some (Inr (orc1, this', other'))
        \<longrightarrow> head other' = None \<and> dequeue orc other' val = Inr (orc, other', False, val))
   \<and> LockFreeQueue_move_assign orc0 dummy this_at this this_at other
       = Some (Inr (orc0, this, other))"
  unfolding dequeue_def LockFreeQueue_move_def LockFreeQueue_move_assign_def
  by (subst (1 2 3) dequeue_loop.simps) (auto split: option.splits sum.splits)

theorem dequeue_null_head_witness:
  "head (snd (LockFreeQueue_move (LockFreeQueue_new Map.empty 0 :: nat LockFreeQueue))) = None
   \<and> dequeue [True] (snd (LockFreeQueue_move (LockFreeQueue_new Map.empty 0 :: nat LockFreeQueue))) 7
       = Inr ([True], snd (LockFreeQueue_move (LockFreeQueue_new Map.empty 0)), False, 7)
   \<and> (100::nat) \<noteq> 200
   \<and> (\<exists>orc1 this' other'.
         LockFreeQueue_move_assign [] (0::nat)
             100 (LockFreeQueue_new (store (LockFreeQueue_new Map.empty 1)) 0)
             200 (LockFreeQueue_new Map.empty 1)
           = Some (Inr (orc1, this', other'))
         \<and> head this' = Some 1 \<and> lfq_repr this' 1 [] [] \<and> head other' = None
         \<and> dequeue [] other' 7 = Inr ([], other', False, 7))"
proof -
  let ?q = "snd (LockFreeQueue_move (LockFreeQueue_new Map.empty 0 :: nat LockFreeQueue))"
  let ?src = "LockFreeQueue_new Map.empty 1 :: nat LockFreeQueue"
  let ?dst = "LockFreeQueue_new (store ?src) 0"
  have h: "head ?q = None" by (simp add: LockFreeQueue_move_def)
  have n: "(100::nat) \<noteq> 200" by simp
  obtain orc1 this' other' where m:
    "LockFreeQueue_move_assign [] (0::nat) 100 ?dst 200 ?src = Some (Inr (orc1, this', other'))"
    "head this' = Some 1" "lfq_repr this' 1 [] []"
    by (simp add: LockFreeQueue_move_assign_def LockFreeQueue_clear_def clear_loop.simps
        dequeue_def dequeue_loop.simps LockFreeQueue_new_def lfq_repr_def payload_of_def is_live_def)
  show ?thesis
    using h n m
      dequeue_null_head[where q = ?q and orc = "[True]" and val = 7
        and other = "LockFreeQueue_new Map.empty 0"]
      dequeue_null_head[where orc = "[]" and val = 7 and ?orc0.0 = "[]" and dummy = 0
        and this_at = 100 and other_at = 200
        and this = ?dst and other = ?src
        and ?orc1.0 = orc1 and this' = this' and other' = other']
    by auto
qed

text \<open>
  The guard at work: a queue holding \<open>10\<close> that is move-assigned to itself keeps its
  head, and \<^verbatim>\<open>dequeue\<close> then returns \<open>10\<close>.
\<close>

lemma move_assign_self_keeps_queue:
  "\<exists>orc1 q1 orc2 q2.
      enqueue 1 (10::nat) [] (LockFreeQueue_new Map.empty 0) = Some (Inr (orc1, q1))
    \<and> LockFreeQueue_move_assign orc1 0 100 q1 100 q1 = Some (Inr (orc1, q1, q1))
    \<and> head q1 = Some 0
    \<and> dequeue orc1 q1 0 = Inr (orc2, q2, True, 10)"
  by (simp add: LockFreeQueue_move_assign_def enqueue_def enqueue_loop.simps dequeue_def
      dequeue_loop.simps LockFreeQueue_new_def compare_exchange_weak_def spurious_def rest_def)
end
